theory Spec2Isabelle
  imports Main "HOL-Library.Word"
begin

section \<open>MiningChallenge: an encrypted contribution ledger\<close>

text \<open>
  A shallow embedding of \<^verbatim>\<open>contracts/src/MiningChallenge.sol\<close>. The contract keeps, per
  player, a handle to an encrypted 32-bit running total, a registry of the players in the order
  of their first mine, and a handle to the encrypted global total. All arithmetic on encrypted
  values is delegated to the FHE library, whose code is not part of the repository; it is
  modelled below from the cleartext semantics the specification gives for it.
\<close>

subsection \<open>Solidity types\<close>

type_synonym address = "160 word"
type_synonym uint256 = "256 word"
type_synonym bytes = "8 word list"

text \<open>
  \<^verbatim>\<open>euint32\<close> and \<^verbatim>\<open>ebool\<close> wrap a \<^verbatim>\<open>bytes32\<close> handle. A handle is an opaque reference to a
  ciphertext kept by the backend; handle \<open>0\<close> is the all-zero value an uninitialised storage
  slot holds. \<^verbatim>\<open>externalEuint32\<close> is the \<^verbatim>\<open>bytes32\<close> a client submits with its proof.
\<close>

type_synonym handle = nat
type_synonym euint32 = handle
type_synonym ebool = handle
type_synonym externalEuint32 = "256 word"

datatype error =
    InvalidInputProof      \<comment> \<open>\<^verbatim>\<open>FHE.fromExternal\<close> rejects the proof (the spec's \<open>ProofInvalid\<close>)\<close>
  | TooSoonToMineAgain     \<comment> \<open>"MiningChallenge: Too soon to mine again" (\<open>RateLimited\<close>)\<close>
  | PlayerDoesNotExist     \<comment> \<open>"MiningChallenge: Player does not exist" (\<open>NotFound\<close>)\<close>
  | IndexOutOfBounds       \<comment> \<open>"MiningChallenge: Index out of bounds"\<close>
  | RewardTokenNotSet      \<comment> \<open>"MiningChallenge: Reward token not set"\<close>
  | ArithmeticOverflow     \<comment> \<open>Solidity 0.8 checked arithmetic, \<^verbatim>\<open>Panic(0x11)\<close>\<close>
  | BackendFailure         \<comment> \<open>the FHE backend refuses an operand\<close>

subsection \<open>The FHE backend\<close>

text \<open>
  The contract imports \<^verbatim>\<open>FHE\<close> from \<^verbatim>\<open>@fhevm/solidity/lib/FHE.sol\<close>; that library and the
  coprocessor behind it are not among the sources. The definitions of this subsection stand
  for them. The backend keeps the cleartext behind every handle it has issued, the grant
  relation, and the calls it has received, in the order the contract made them. Every
  operation issues a handle no earlier call has returned.

  The grant relation and the call log are recorded, and no operation consults them: whether
  the coprocessor accepts an operand is decided outside the contract. The contract's tests
  mine successfully although \<open>mine\<close> adds to a zero total it has just created and never
  self-granted, so a handle made in the current transaction is usable as it is.
\<close>

datatype clear = U32 "32 word" | Bool bool

datatype grantee = Ledger | Party address

datatype fhe_call =
    CallFromExternal handle
  | CallAsEuint32 "32 word" handle
  | CallAdd handle handle handle
  | CallGt handle handle handle
  | CallSelect handle handle handle handle
  | CallAllowThis handle
  | CallAllow handle address

text \<open>
  Modelled from the spec: the state of the external encryption backend, which section 6 lists
  as the \<open>AccessGrant\<close> table next to the ciphertexts. \<open>inputVerifier\<close> is the backend's check of
  an input proof: the cleartext the submitted value carries, or \<open>None\<close> when the proof is
  rejected.
\<close>

record fhevm =
  inputVerifier :: "address \<Rightarrow> externalEuint32 \<Rightarrow> bytes \<Rightarrow> 32 word option"
  ciphertexts :: "clear list"
  acl :: "(handle \<times> grantee) set"
  calls :: "fhe_call list"

text \<open>
  Modelled from the spec: handles are opaque references (glossary); the next one to be issued
  is the successor of the number issued so far, so that it is never the zero sentinel of
  section 4.1.
\<close>

definition fresh :: "fhevm \<Rightarrow> handle" where
  "fresh f = Suc (length (ciphertexts f))"

text \<open>
  Modelled from the spec: the cleartext behind a handle, what the external decryption oracle
  would answer. The zero sentinel and a handle not yet issued have none.
\<close>

definition clearOf :: "fhevm \<Rightarrow> handle \<Rightarrow> clear option" where
  "clearOf f h =
     (if h = 0 \<or> length (ciphertexts f) < h then None else Some (ciphertexts f ! (h - 1)))"

definition decrypt :: "fhevm \<Rightarrow> euint32 \<Rightarrow> 32 word option" where
  "decrypt f h = (case clearOf f h of Some (U32 v) \<Rightarrow> Some v | _ \<Rightarrow> None)"

definition issue :: "clear \<Rightarrow> fhe_call \<Rightarrow> fhevm \<Rightarrow> fhevm" where
  "issue c call f = f\<lparr>ciphertexts := ciphertexts f @ [c], calls := calls f @ [call]\<rparr>"

text \<open>
  Modelled from the spec: \<^verbatim>\<open>FHE.fromExternal\<close>, absent from the sources. Section 6: the proof
  is verified by the backend and the transition aborts when verification fails.
\<close>

definition FHE_fromExternal ::
  "address \<Rightarrow> externalEuint32 \<Rightarrow> bytes \<Rightarrow> fhevm \<Rightarrow> error + (euint32 \<times> fhevm)" where
  "FHE_fromExternal sender encryptedAmount inputProof f =
     (case inputVerifier f sender encryptedAmount inputProof of
        None \<Rightarrow> Inl InvalidInputProof
      | Some v \<Rightarrow> Inr (fresh f, issue (U32 v) (CallFromExternal (fresh f)) f))"

text \<open>
  Modelled from the spec: \<^verbatim>\<open>FHE.asEuint32\<close>, absent from the sources. Section 4.1,
  \<open>fromConstant(n)\<close>.
\<close>

definition FHE_asEuint32 :: "32 word \<Rightarrow> fhevm \<Rightarrow> euint32 \<times> fhevm" where
  "FHE_asEuint32 n f = (fresh f, issue (U32 n) (CallAsEuint32 n (fresh f)) f)"

text \<open>
  Modelled from the spec: \<^verbatim>\<open>FHE.add\<close>, absent from the sources. Section 4.1: the cleartext
  of the result is \<open>(a + b) mod 2 ^ 32\<close>, which is addition of 32-bit words. An operand without
  a 32-bit cleartext is a backend failure, which aborts the transition (section 5).
\<close>

definition FHE_add :: "euint32 \<Rightarrow> euint32 \<Rightarrow> fhevm \<Rightarrow> error + (euint32 \<times> fhevm)" where
  "FHE_add a b f =
     (case (clearOf f a, clearOf f b) of
        (Some (U32 x), Some (U32 y)) \<Rightarrow>
          Inr (fresh f, issue (U32 (x + y)) (CallAdd a b (fresh f)) f)
      | _ \<Rightarrow> Inl BackendFailure)"

text \<open>
  Modelled from the spec: \<^verbatim>\<open>FHE.gt\<close>, absent from the sources. Section 4.1,
  \<open>greaterThan(a, b)\<close>: the cleartext of the result is \<open>a > b\<close>.
\<close>

definition FHE_gt :: "euint32 \<Rightarrow> euint32 \<Rightarrow> fhevm \<Rightarrow> error + (ebool \<times> fhevm)" where
  "FHE_gt a b f =
     (case (clearOf f a, clearOf f b) of
        (Some (U32 x), Some (U32 y)) \<Rightarrow>
          Inr (fresh f, issue (Bool (y < x)) (CallGt a b (fresh f)) f)
      | _ \<Rightarrow> Inl BackendFailure)"

text \<open>
  Modelled from the spec: \<^verbatim>\<open>FHE.select\<close>, absent from the sources. Section 4.1,
  \<open>select(cond, a, b)\<close>: the cleartext of the result is \<open>a\<close> when \<open>cond\<close> holds and \<open>b\<close>
  otherwise.
\<close>

definition FHE_select ::
  "ebool \<Rightarrow> euint32 \<Rightarrow> euint32 \<Rightarrow> fhevm \<Rightarrow> error + (euint32 \<times> fhevm)" where
  "FHE_select c a b f =
     (case (clearOf f c, clearOf f a, clearOf f b) of
        (Some (Bool t), Some (U32 x), Some (U32 y)) \<Rightarrow>
          Inr (fresh f, issue (U32 (if t then x else y)) (CallSelect c a b (fresh f)) f)
      | _ \<Rightarrow> Inl BackendFailure)"

text \<open>
  Modelled from the spec: \<^verbatim>\<open>FHE.allowThis\<close>, absent from the sources. Section 4.2,
  \<open>grantSelf(handle)\<close>: the ledger itself is registered for the handle.
\<close>

definition FHE_allowThis :: "handle \<Rightarrow> fhevm \<Rightarrow> fhevm" where
  "FHE_allowThis h f = f\<lparr>acl := insert (h, Ledger) (acl f), calls := calls f @ [CallAllowThis h]\<rparr>"

text \<open>
  Modelled from the spec: \<^verbatim>\<open>FHE.allow\<close>, absent from the sources. Section 4.2,
  \<open>grantTo(handle, principal)\<close>; grants are never revoked.
\<close>

definition FHE_allow :: "handle \<Rightarrow> address \<Rightarrow> fhevm \<Rightarrow> fhevm" where
  "FHE_allow h p f = f\<lparr>acl := insert (h, Party p) (acl f), calls := calls f @ [CallAllow h p]\<rparr>"

subsection \<open>Contract storage\<close>

record PlayerData =
  totalMined :: euint32
  exists :: bool
  lastMineTime :: uint256

datatype event =
    PlayerMined address uint256
  | RewardDistributed address uint256

record state =
  players :: "address \<Rightarrow> PlayerData"
  playerAddresses :: "address list"
  rewardToken :: address
  minMineInterval :: uint256
  totalMinedAmount :: euint32
  events :: "event list"
  fhe :: fhevm

text \<open>A storage slot never written reads as zero.\<close>

definition noPlayer :: PlayerData where
  "noPlayer = \<lparr>totalMined = 0, exists = False, lastMineTime = 0\<rparr>"

text \<open>The constructor runs against the backend as deployment finds it.\<close>

definition constructor :: "fhevm \<Rightarrow> address \<Rightarrow> uint256 \<Rightarrow> state" where
  "constructor f rewardToken' minMineInterval' =
     (let (zero, f1) = FHE_asEuint32 0 f in
      \<lparr>players = (\<lambda>_. noPlayer), playerAddresses = [], rewardToken = rewardToken',
       minMineInterval = minMineInterval', totalMinedAmount = zero, events = [], fhe = f1\<rparr>)"

subsection \<open>mine\<close>

text \<open>\<^verbatim>\<open>a + b\<close> on \<^verbatim>\<open>uint256\<close> under Solidity 0.8: the transaction panics on overflow.\<close>

definition checked_add :: "uint256 \<Rightarrow> uint256 \<Rightarrow> error + uint256" where
  "checked_add a b = (if unat a + unat b < 2 ^ 256 then Inr (a + b) else Inl ArithmeticOverflow)"

text \<open>Lines 59 to 64: the interval check, made only for a player that exists.\<close>

definition check_interval :: "state \<Rightarrow> address \<Rightarrow> uint256 \<Rightarrow> error option" where
  "check_interval st sender now =
     (if exists (players st sender) then
        (case checked_add (lastMineTime (players st sender)) (minMineInterval st) of
           Inl e \<Rightarrow> Some e
         | Inr earliest \<Rightarrow> if earliest \<le> now then None else Some TooSoonToMineAgain)
      else None)"

text \<open>Lines 67 to 71: a first-time player gets a record and a place in the registry.\<close>

definition register_player :: "state \<Rightarrow> address \<Rightarrow> state" where
  "register_player st sender =
     (if \<not> exists (players st sender) then
        (let (zero, f1) = FHE_asEuint32 0 (fhe st) in
         st\<lparr>players := (players st)(sender := (players st sender)\<lparr>exists := True, totalMined := zero\<rparr>),
            playerAddresses := playerAddresses st @ [sender],
            fhe := f1\<rparr>)
      else st)"

text \<open>Lines 74 to 89: both additions, the grants, the timestamp and the event.\<close>

definition add_to_totals :: "state \<Rightarrow> address \<Rightarrow> uint256 \<Rightarrow> euint32 \<Rightarrow> error + state" where
  "add_to_totals st sender now amount =
     (case FHE_add (totalMined (players st sender)) amount (fhe st) of
        Inl e \<Rightarrow> Inl e
      | Inr (playerTotal, f1) \<Rightarrow>
          (case FHE_add (totalMinedAmount st) amount f1 of
             Inl e \<Rightarrow> Inl e
           | Inr (globalTotal, f2) \<Rightarrow>
               Inr (st\<lparr>players := (players st)(sender :=
                          (players st sender)\<lparr>totalMined := playerTotal, lastMineTime := now\<rparr>),
                       totalMinedAmount := globalTotal,
                       events := events st @ [PlayerMined sender 0],
                       fhe := FHE_allow playerTotal sender
                                (FHE_allowThis playerTotal (FHE_allowThis globalTotal f2))\<rparr>)))"

text \<open>
  \<^verbatim>\<open>mine(encryptedAmount, inputProof)\<close> called by \<open>sender\<close> in a block with timestamp \<open>now\<close>.
  A revert is the value \<open>Inl\<close>: the caller's state is then the state before the call.
\<close>

definition mine ::
  "state \<Rightarrow> address \<Rightarrow> uint256 \<Rightarrow> externalEuint32 \<Rightarrow> bytes \<Rightarrow> error + state" where
  "mine st sender now encryptedAmount inputProof =
     (case FHE_fromExternal sender encryptedAmount inputProof (fhe st) of
        Inl e \<Rightarrow> Inl e
      | Inr (amount, f1) \<Rightarrow>
          (let st1 = st\<lparr>fhe := FHE_allowThis amount f1\<rparr> in
           case check_interval st1 sender now of
             Some e \<Rightarrow> Inl e
           | None \<Rightarrow> add_to_totals (register_player st1 sender) sender now amount))"

subsection \<open>Views\<close>

text \<open>
  A view returns a value and leaves the state alone. The length of the registry and an index
  into it are \<^verbatim>\<open>uint256\<close> in the source; no arithmetic is done on them, and they are natural
  numbers here.
\<close>

definition getPlayerTotalMined :: "state \<Rightarrow> address \<Rightarrow> error + euint32" where
  "getPlayerTotalMined st player =
     (if exists (players st player) then Inr (totalMined (players st player))
      else Inl PlayerDoesNotExist)"

definition getTotalMinedAmount :: "state \<Rightarrow> euint32" where
  "getTotalMinedAmount st = totalMinedAmount st"

definition getPlayerCount :: "state \<Rightarrow> nat" where
  "getPlayerCount st = length (playerAddresses st)"

definition getPlayerAddress :: "state \<Rightarrow> nat \<Rightarrow> error + address" where
  "getPlayerAddress st index =
     (if index < length (playerAddresses st) then Inr (playerAddresses st ! index)
      else Inl IndexOutOfBounds)"

definition playerExists :: "state \<Rightarrow> address \<Rightarrow> bool" where
  "playerExists st player = exists (players st player)"

definition getPlayerLastMineTime :: "state \<Rightarrow> address \<Rightarrow> error + uint256" where
  "getPlayerLastMineTime st player =
     (if exists (players st player) then Inr (lastMineTime (players st player))
      else Inl PlayerDoesNotExist)"

subsection \<open>calculateMyRank\<close>

text \<open>
  The body of the loop of lines 135 to 146, for the players still to visit. Neither the
  records nor the registry change while it runs; the running count and the backend do.
\<close>

fun rank_loop ::
  "(address \<Rightarrow> PlayerData) \<Rightarrow> address \<Rightarrow> euint32 \<Rightarrow> address list \<Rightarrow> euint32 \<Rightarrow> fhevm
     \<Rightarrow> error + (euint32 \<times> fhevm)" where
  "rank_loop ps sender myAmount [] count f = Inr (count, f)"
| "rank_loop ps sender myAmount (otherPlayer # rest) count f =
     (if otherPlayer \<noteq> sender then
        (case FHE_gt (totalMined (ps otherPlayer)) myAmount f of
           Inl e \<Rightarrow> Inl e
         | Inr (isGreater, f1) \<Rightarrow>
             (let (one, f2) = FHE_asEuint32 1 f1;
                  (zero, f3) = FHE_asEuint32 0 f2 in
              case FHE_select isGreater one zero f3 of
                Inl e \<Rightarrow> Inl e
              | Inr (increment, f4) \<Rightarrow>
                  (case FHE_add count increment f4 of
                     Inl e \<Rightarrow> Inl e
                   | Inr (count', f5) \<Rightarrow> rank_loop ps sender myAmount rest count' f5)))
      else rank_loop ps sender myAmount rest count f)"

definition calculateMyRank :: "state \<Rightarrow> address \<Rightarrow> error + (euint32 \<times> state)" where
  "calculateMyRank st sender =
     (if \<not> exists (players st sender) then Inl PlayerDoesNotExist
      else
        (let myAmount = totalMined (players st sender);
             (count0, f1) = FHE_asEuint32 0 (fhe st) in
         case rank_loop (players st) sender myAmount (playerAddresses st) count0 f1 of
           Inl e \<Rightarrow> Inl e
         | Inr (count, f2) \<Rightarrow>
             (let (one, f3) = FHE_asEuint32 1 f2 in
              case FHE_add count one f3 of
                Inl e \<Rightarrow> Inl e
              | Inr (rankEnc, f4) \<Rightarrow>
                  Inr (rankEnc, st\<lparr>fhe := FHE_allow rankEnc sender (FHE_allowThis rankEnc f4)\<rparr>))))"

subsection \<open>distributeReward\<close>

definition distributeReward :: "state \<Rightarrow> address \<Rightarrow> uint256 \<Rightarrow> error + state" where
  "distributeReward st player amount =
     (if \<not> exists (players st player) then Inl PlayerDoesNotExist
      else if rewardToken st = 0 then Inl RewardTokenNotSet
      else Inr (st\<lparr>events := events st @ [RewardDistributed player amount]\<rparr>))"

subsection \<open>Transactions\<close>

text \<open>
  The ledger is driven by a sequence of transactions. One that reverts leaves the state as
  it was; the next one runs all the same.
\<close>

datatype tx =
    Mine address uint256 externalEuint32 bytes
  | CalculateMyRank address
  | DistributeReward address uint256

fun exec :: "state \<Rightarrow> tx \<Rightarrow> error + state" where
  "exec st (Mine sender now encryptedAmount inputProof) =
     mine st sender now encryptedAmount inputProof"
| "exec st (CalculateMyRank sender) =
     (case calculateMyRank st sender of Inl e \<Rightarrow> Inl e | Inr (rankEnc, st') \<Rightarrow> Inr st')"
| "exec st (DistributeReward player amount) = distributeReward st player amount"

definition step :: "state \<Rightarrow> tx \<Rightarrow> state" where
  "step st t = (case exec st t of Inl e \<Rightarrow> st | Inr st' \<Rightarrow> st')"

definition run :: "state \<Rightarrow> tx list \<Rightarrow> state" where
  "run st ts = foldl step st ts"

subsection \<open>What the ledger means in the clear\<close>

text \<open>
  The cleartext total of a player is what the handle in its record stands for. A handle
  that the backend never issued (such as the zero handle of a player without record) has no
  cleartext.
\<close>

definition clearTotal :: "state \<Rightarrow> address \<Rightarrow> 32 word option" where
  "clearTotal st p = decrypt (fhe st) (totalMined (players st p))"

definition total_of :: "state \<Rightarrow> address \<Rightarrow> 32 word" where
  "total_of st p = (case clearTotal st p of Some v \<Rightarrow> v | None \<Rightarrow> 0)"

text \<open>
  The successful mines of a run, in order: who mined and which cleartext amount the verified
  input carried. Reverted transactions and the other entry points contribute nothing.
\<close>

definition mined :: "state \<Rightarrow> tx \<Rightarrow> (address \<times> 32 word) option" where
  "mined st t =
     (case t of
        Mine sender now encryptedAmount inputProof \<Rightarrow>
          (case mine st sender now encryptedAmount inputProof of
             Inl e \<Rightarrow> None
           | Inr st' \<Rightarrow>
               (case inputVerifier (fhe st) sender encryptedAmount inputProof of
                  None \<Rightarrow> None
                | Some v \<Rightarrow> Some (sender, v)))
      | CalculateMyRank sender \<Rightarrow> None
      | DistributeReward player amount \<Rightarrow> None)"

fun contributions :: "state \<Rightarrow> tx list \<Rightarrow> (address \<times> 32 word) list" where
  "contributions st [] = []"
| "contributions st (t # ts) =
     (case mined st t of None \<Rightarrow> [] | Some c \<Rightarrow> [c]) @ contributions (step st t) ts"

text \<open>The elements of a list in the order of their first occurrence.\<close>

fun first_occurrences :: "'a list \<Rightarrow> 'a list" where
  "first_occurrences [] = []"
| "first_occurrences (x # xs) = x # filter (\<lambda>y. y \<noteq> x) (first_occurrences xs)"

text \<open>
  \<open>beats st q p\<close>: the cleartext total of \<open>q\<close> is strictly greater than that of \<open>p\<close>.
  \<open>higher st p\<close> lists the registered players other than \<open>p\<close> that beat \<open>p\<close>.
\<close>

definition beats :: "state \<Rightarrow> address \<Rightarrow> address \<Rightarrow> bool" where
  "beats st q p =
     (case (clearTotal st q, clearTotal st p) of (Some a, Some b) \<Rightarrow> b < a | _ \<Rightarrow> False)"

definition higher :: "state \<Rightarrow> address \<Rightarrow> address list" where
  "higher st p = filter (\<lambda>q. q \<noteq> p \<and> beats st q p) (playerAddresses st)"

text \<open>
  The invariant of the ledger: the registry lists every player with a record exactly once,
  every registered total has a cleartext, and the global total stands for their sum.
\<close>

definition ledger_inv :: "state \<Rightarrow> bool" where
  "ledger_inv st \<longleftrightarrow>
     distinct (playerAddresses st) \<and>
     (\<forall>p. exists (players st p) \<longleftrightarrow> p \<in> set (playerAddresses st)) \<and>
     (\<forall>p\<in>set (playerAddresses st). clearTotal st p = Some (total_of st p)) \<and>
     decrypt (fhe st) (totalMinedAmount st) =
       Some (sum_list (map (total_of st) (playerAddresses st)))"

text \<open>
  \<open>grows f f'\<close>: every handle of \<open>f\<close> keeps its cleartext in \<open>f'\<close>, and the input
  verifier is the same.
\<close>

definition grows :: "fhevm \<Rightarrow> fhevm \<Rightarrow> bool" where
  "grows f f' \<longleftrightarrow> (\<forall>h c. clearOf f h = Some c \<longrightarrow> clearOf f' h = Some c) \<and>
     inputVerifier f' = inputVerifier f"

subsection \<open>Reading the call log\<close>

fun is_allowThis :: "fhe_call \<Rightarrow> bool" where
  "is_allowThis (CallAllowThis h) = True"
| "is_allowThis _ = False"

fun operands :: "fhe_call \<Rightarrow> handle list" where
  "operands (CallAdd a b r) = [a, b]"
| "operands (CallGt a b r) = [a, b]"
| "operands (CallSelect c a b r) = [c, a, b]"
| "operands _ = []"

text \<open>
  \<open>self_granted_before_use h cs\<close>: reading the log \<open>cs\<close> from its start, no call has
  \<open>h\<close> as an operand before \<^verbatim>\<open>allowThis(h)\<close> has been called.
\<close>

fun self_granted_before_use :: "handle \<Rightarrow> fhe_call list \<Rightarrow> bool" where
  "self_granted_before_use h [] = True"
| "self_granted_before_use h (c # cs) =
     (if c = CallAllowThis h then True
      else h \<notin> set (operands c) \<and> self_granted_before_use h cs)"

subsection \<open>A deployment to run\<close>

text \<open>
  A backend whose verifier accepts every non-empty proof and reads the cleartext from the low
  32 bits of the submitted value, two players, and the ledger as deployed with a minimum
  interval of 10 seconds and no reward token.
\<close>

definition demo_verifier :: "address \<Rightarrow> externalEuint32 \<Rightarrow> bytes \<Rightarrow> 32 word option" where
  "demo_verifier sender encryptedAmount inputProof =
     (if inputProof = [] then None else Some (ucast encryptedAmount))"

definition empty_backend :: fhevm where
  "empty_backend = \<lparr>inputVerifier = demo_verifier, ciphertexts = [], acl = {}, calls = []\<rparr>"

definition alice :: address where
  "alice = 1"

definition bob :: address where
  "bob = 2"

definition genesis :: state where
  "genesis = constructor empty_backend 0 10"

text \<open>
  The scenario of the specification: Alice mines 10 at time 0, tries 5 at time 5, mines 5 at
  time 11, and Bob mines 20 at time 12.
\<close>

definition scenario :: "tx list" where
  "scenario = [Mine alice 0 10 [1], Mine alice 5 5 [1], Mine alice 11 5 [1], Mine bob 12 20 [1]]"

text \<open>Two players mine once each, then Alice asks for her rank.\<close>

definition ranking_run :: "tx list" where
  "ranking_run = [Mine alice 0 10 [1], Mine bob 12 20 [1], CalculateMyRank alice]"

section \<open>Properties\<close>

subsection \<open>The backend\<close>

lemma fresh_issue [simp]: "fresh (issue c call f) = Suc (fresh f)"
  by (simp add: fresh_def issue_def)

lemma acl_issue [simp]: "acl (issue c call f) = acl f"
  by (simp add: issue_def)

lemma calls_issue [simp]: "calls (issue c call f) = calls f @ [call]"
  by (simp add: issue_def)

lemma inputVerifier_issue [simp]: "inputVerifier (issue c call f) = inputVerifier f"
  by (simp add: issue_def)

lemma clearOf_issue: "clearOf (issue c call f) h = (if h = fresh f then Some c else clearOf f h)"
  by (auto simp: clearOf_def issue_def fresh_def nth_append)

lemma clearOf_fresh [simp]: "clearOf f (fresh f) = None"
  by (simp add: clearOf_def fresh_def)

lemma decrypt_fresh [simp]: "decrypt f (fresh f) = None"
  by (simp add: decrypt_def)

lemma decrypt_issue_new [simp]: "decrypt (issue (U32 v) call f) (fresh f) = Some v"
  by (simp add: decrypt_def clearOf_issue)

lemma decrypt_issue_old [simp]: "decrypt f h = Some v \<Longrightarrow> decrypt (issue c call f) h = Some v"
  by (auto simp: decrypt_def clearOf_issue split: option.splits clear.splits)

lemma clearOf_issue_old [simp]: "clearOf f h = Some v \<Longrightarrow> clearOf (issue c call f) h = Some v"
  by (auto simp: clearOf_issue)

lemma decrypt_issue:
  "decrypt (issue c call f) h =
     (if h = fresh f then (case c of U32 v \<Rightarrow> Some v | Bool b \<Rightarrow> None) else decrypt f h)"
  by (simp add: decrypt_def clearOf_issue)

lemma fresh_allowThis [simp]: "fresh (FHE_allowThis h f) = fresh f"
  by (simp add: fresh_def FHE_allowThis_def)

lemma fresh_allow [simp]: "fresh (FHE_allow h p f) = fresh f"
  by (simp add: fresh_def FHE_allow_def)

lemma clearOf_allowThis [simp]: "clearOf (FHE_allowThis h f) = clearOf f"
  by (rule ext) (simp add: clearOf_def FHE_allowThis_def)

lemma clearOf_allow [simp]: "clearOf (FHE_allow h p f) = clearOf f"
  by (rule ext) (simp add: clearOf_def FHE_allow_def)

lemma decrypt_allowThis [simp]: "decrypt (FHE_allowThis h f) = decrypt f"
  by (rule ext) (simp add: decrypt_def clearOf_def FHE_allowThis_def)

lemma decrypt_allow [simp]: "decrypt (FHE_allow h p f) = decrypt f"
  by (rule ext) (simp add: decrypt_def clearOf_def FHE_allow_def)

lemma acl_allowThis [simp]: "acl (FHE_allowThis h f) = insert (h, Ledger) (acl f)"
  by (simp add: FHE_allowThis_def)

lemma acl_allow [simp]: "acl (FHE_allow h p f) = insert (h, Party p) (acl f)"
  by (simp add: FHE_allow_def)

lemma calls_allowThis [simp]: "calls (FHE_allowThis h f) = calls f @ [CallAllowThis h]"
  by (simp add: FHE_allowThis_def)

lemma calls_allow [simp]: "calls (FHE_allow h p f) = calls f @ [CallAllow h p]"
  by (simp add: FHE_allow_def)

lemma inputVerifier_allowThis [simp]: "inputVerifier (FHE_allowThis h f) = inputVerifier f"
  by (simp add: FHE_allowThis_def)

lemma inputVerifier_allow [simp]: "inputVerifier (FHE_allow h p f) = inputVerifier f"
  by (simp add: FHE_allow_def)

lemma decrypt_clearOf: "decrypt f h = Some v \<longleftrightarrow> clearOf f h = Some (U32 v)"
  by (auto simp: decrypt_def split: option.splits clear.splits)

lemma FHE_add_Inr:
  "decrypt f a = Some x \<Longrightarrow> decrypt f b = Some y \<Longrightarrow>
   FHE_add a b f = Inr (fresh f, issue (U32 (x + y)) (CallAdd a b (fresh f)) f)"
  by (simp add: FHE_add_def decrypt_clearOf)

lemma FHE_add_InrD:
  "FHE_add a b f = Inr (h, f') \<Longrightarrow>
   \<exists>x y. decrypt f a = Some x \<and> decrypt f b = Some y \<and> h = fresh f \<and>
         f' = issue (U32 (x + y)) (CallAdd a b (fresh f)) f"
  by (auto simp: FHE_add_def decrypt_clearOf split: option.splits clear.splits)

lemma FHE_add_InlD: "FHE_add a b f = Inl e \<Longrightarrow> e = BackendFailure"
  by (auto simp: FHE_add_def split: option.splits clear.splits)

lemma FHE_gt_Inr:
  "decrypt f a = Some x \<Longrightarrow> decrypt f b = Some y \<Longrightarrow>
   FHE_gt a b f = Inr (fresh f, issue (Bool (y < x)) (CallGt a b (fresh f)) f)"
  by (simp add: FHE_gt_def decrypt_clearOf)

lemma FHE_gt_InrD:
  "FHE_gt a b f = Inr (h, f') \<Longrightarrow>
   \<exists>x y. decrypt f a = Some x \<and> decrypt f b = Some y \<and> h = fresh f \<and>
         f' = issue (Bool (y < x)) (CallGt a b (fresh f)) f"
  by (auto simp: FHE_gt_def decrypt_clearOf split: option.splits clear.splits)

lemma FHE_select_Inr:
  "clearOf f c = Some (Bool t) \<Longrightarrow> decrypt f a = Some x \<Longrightarrow> decrypt f b = Some y \<Longrightarrow>
   FHE_select c a b f =
     Inr (fresh f, issue (U32 (if t then x else y)) (CallSelect c a b (fresh f)) f)"
  by (simp add: FHE_select_def decrypt_clearOf)

lemma FHE_select_InrD:
  "FHE_select c a b f = Inr (h, f') \<Longrightarrow>
   \<exists>t x y. clearOf f c = Some (Bool t) \<and> decrypt f a = Some x \<and> decrypt f b = Some y \<and>
       h = fresh f \<and> f' = issue (U32 (if t then x else y)) (CallSelect c a b (fresh f)) f"
  by (auto simp: FHE_select_def decrypt_clearOf split: option.splits clear.splits)

lemma grows_refl [simp]: "grows f f"
  by (simp add: grows_def)

lemma grows_trans: "grows f g \<Longrightarrow> grows g h \<Longrightarrow> grows f h"
  by (simp add: grows_def)

lemma grows_issue [simp]: "grows f (issue c call f)"
  by (simp add: grows_def)

lemma grows_issue_trans [simp]: "grows f g \<Longrightarrow> grows f (issue c call g)"
  by (simp add: grows_def)

lemma grows_allowThis [simp]: "grows f g \<Longrightarrow> grows f (FHE_allowThis h g)"
  by (simp add: grows_def)

lemma grows_allow [simp]: "grows f g \<Longrightarrow> grows f (FHE_allow h p g)"
  by (simp add: grows_def)

lemma grows_decrypt: "grows f f' \<Longrightarrow> decrypt f h = Some v \<Longrightarrow> decrypt f' h = Some v"
  by (simp add: grows_def decrypt_clearOf)

subsection \<open>The ranking loop\<close>

lemma rank_loop_correct:
  assumes "\<forall>q\<in>set addrs. q \<noteq> s \<longrightarrow> decrypt f (totalMined (ps q)) = Some (tot q)"
    and "decrypt f my = Some m" and "decrypt f count = Some c"
  shows "\<exists>count' f'. rank_loop ps s my addrs count f = Inr (count', f') \<and>
           decrypt f' count' = Some (c + of_nat (length (filter (\<lambda>q. q \<noteq> s \<and> m < tot q) addrs))) \<and>
           grows f f' \<and> acl f' = acl f \<and>
           (\<exists>cs. calls f' = calls f @ cs \<and> filter is_allowThis cs = [])"
  using assms
proof (induction addrs arbitrary: count f c)
  case Nil
  then show ?case by simp
next
  case (Cons q rest)
  show ?case
  proof (cases "q = s")
    case True
    with Cons.IH [of f count c] Cons.prems show ?thesis by simp
  next
    case False
    define f1 where "f1 = issue (Bool (m < tot q)) (CallGt (totalMined (ps q)) my (fresh f)) f"
    define f2 where "f2 = issue (U32 1) (CallAsEuint32 1 (fresh f1)) f1"
    define f3 where "f3 = issue (U32 0) (CallAsEuint32 0 (fresh f2)) f2"
    define inc where "inc = (if m < tot q then 1 else 0 :: 32 word)"
    define f4 where "f4 = issue (U32 inc) (CallSelect (fresh f) (fresh f1) (fresh f2) (fresh f3)) f3"
    define f5 where "f5 = issue (U32 (c + inc)) (CallAdd count (fresh f3) (fresh f4)) f4"
    have q: "decrypt f (totalMined (ps q)) = Some (tot q)"
      using Cons.prems(1) False by simp
    have gt: "FHE_gt (totalMined (ps q)) my f = Inr (fresh f, f1)"
      using q Cons.prems(2) by (simp add: FHE_gt_Inr f1_def)
    have sel: "FHE_select (fresh f) (fresh f1) (fresh f2) f3 = Inr (fresh f3, f4)"
      unfolding f4_def inc_def
      by (rule FHE_select_Inr [where t = "m < tot q" and x = 1 and y = 0, simplified])
         (simp_all add: f3_def f2_def f1_def clearOf_issue decrypt_def)
    have cnt4: "decrypt f4 count = Some c"
      using Cons.prems(3) by (simp add: f4_def f3_def f2_def f1_def)
    have add: "FHE_add count (fresh f3) f4 = Inr (fresh f4, f5)"
      unfolding f5_def by (rule FHE_add_Inr [OF cnt4]) (simp add: f4_def)
    have step: "rank_loop ps s my (q # rest) count f = rank_loop ps s my rest (fresh f4) f5"
      using False gt sel add by (simp add: FHE_asEuint32_def f2_def f3_def)
    have g5: "grows f f5"
      by (simp add: f5_def f4_def f3_def f2_def f1_def)
    have rest: "\<forall>p\<in>set rest. p \<noteq> s \<longrightarrow> decrypt f5 (totalMined (ps p)) = Some (tot p)"
      using Cons.prems(1) grows_decrypt [OF g5] by simp
    have my5: "decrypt f5 my = Some m"
      using Cons.prems(2) grows_decrypt [OF g5] by simp
    have c5: "decrypt f5 (fresh f4) = Some (c + inc)"
      by (simp add: f5_def)
    from Cons.IH [OF rest my5 c5] obtain count' f' cs where
      r: "rank_loop ps s my rest (fresh f4) f5 = Inr (count', f')"
      and d: "decrypt f' count' =
              Some (c + inc + of_nat (length (filter (\<lambda>q. q \<noteq> s \<and> m < tot q) rest)))"
      and g: "grows f5 f'" and a: "acl f' = acl f5"
      and cs: "calls f' = calls f5 @ cs" "filter is_allowThis cs = []"
      by blast
    have a5: "acl f5 = acl f"
      by (simp add: f5_def f4_def f3_def f2_def f1_def)
    have "calls f' = calls f @ ([CallGt (totalMined (ps q)) my (fresh f), CallAsEuint32 1 (fresh f1),
              CallAsEuint32 0 (fresh f2), CallSelect (fresh f) (fresh f1) (fresh f2) (fresh f3),
              CallAdd count (fresh f3) (fresh f4)] @ cs)"
      using cs(1) by (simp add: f5_def f4_def f3_def f2_def f1_def)
    moreover have "filter is_allowThis ([CallGt (totalMined (ps q)) my (fresh f), CallAsEuint32 1 (fresh f1),
              CallAsEuint32 0 (fresh f2), CallSelect (fresh f) (fresh f1) (fresh f2) (fresh f3),
              CallAdd count (fresh f3) (fresh f4)] @ cs) = []"
      using cs(2) by simp
    ultimately have calls: "\<exists>cs. calls f' = calls f @ cs \<and> filter is_allowThis cs = []"
      by blast
    have "decrypt f' count' =
            Some (c + of_nat (length (filter (\<lambda>q. q \<noteq> s \<and> m < tot q) (q # rest))))"
      using d False by (simp add: inc_def add.assoc)
    with step r g a a5 calls grows_trans [OF g5 g] show ?thesis
      by simp
  qed
qed

lemma rank_loop_frame:
  "rank_loop ps s my addrs count f = Inr (c, f') \<Longrightarrow>
     grows f f' \<and> acl f' = acl f \<and>
     (\<exists>cs. calls f' = calls f @ cs \<and> filter is_allowThis cs = [])"
proof (induction addrs arbitrary: count f)
  case Nil
  then show ?case by simp
next
  case (Cons q rest)
  show ?case
  proof (cases "q = s")
    case True
    with Cons show ?thesis by simp
  next
    case False
    with Cons.prems obtain g0 f1 inc f4 cnt f5 where
      gt: "FHE_gt (totalMined (ps q)) my f = Inr (g0, f1)"
      and sel: "FHE_select g0 (fresh f1) (Suc (fresh f1))
                  (issue (U32 0) (CallAsEuint32 0 (Suc (fresh f1)))
                     (issue (U32 1) (CallAsEuint32 1 (fresh f1)) f1)) = Inr (inc, f4)"
      and add: "FHE_add count inc f4 = Inr (cnt, f5)"
      and rest: "rank_loop ps s my rest cnt f5 = Inr (c, f')"
      by (auto simp: FHE_asEuint32_def split: sum.splits)
    from FHE_gt_InrD [OF gt] FHE_select_InrD [OF sel] FHE_add_InrD [OF add]
    obtain cs5 where g5: "grows f f5" and a5: "acl f5 = acl f"
      and c5: "calls f5 = calls f @ cs5" "filter is_allowThis cs5 = []"
      by (elim exE conjE) simp
    from Cons.IH [OF rest] obtain cs where g: "grows f5 f'" and a: "acl f' = acl f5"
      and c: "calls f' = calls f5 @ cs" "filter is_allowThis cs = []"
      by blast
    have "calls f' = calls f @ (cs5 @ cs)" "filter is_allowThis (cs5 @ cs) = []"
      using c5 c by simp_all
    then have "\<exists>cs. calls f' = calls f @ cs \<and> filter is_allowThis cs = []"
      by blast
    with grows_trans [OF g5 g] a a5 show ?thesis by simp
  qed
qed

lemma calculateMyRank_frame:
  assumes "calculateMyRank st s = Inr (r, st')"
  shows "st' = st\<lparr>fhe := fhe st'\<rparr>"
    and "exists (players st s)"
    and "acl (fhe st') = insert (r, Party s) (insert (r, Ledger) (acl (fhe st)))"
    and "grows (fhe st) (fhe st')"
    and "\<exists>cs. calls (fhe st') = calls (fhe st) @ cs @ [CallAllowThis r, CallAllow r s] \<and>
              filter is_allowThis cs = []"
proof -
  define f1 where "f1 = issue (U32 0) (CallAsEuint32 0 (fresh (fhe st))) (fhe st)"
  from assms show ex: "exists (players st s)"
    by (auto simp: calculateMyRank_def split: if_splits)
  with assms obtain cnt f2 f4 where
    loop: "rank_loop (players st) s (totalMined (players st s)) (playerAddresses st)
             (fresh (fhe st)) f1 = Inr (cnt, f2)"
    and add: "FHE_add cnt (fresh f2) (issue (U32 1) (CallAsEuint32 1 (fresh f2)) f2) = Inr (r, f4)"
    and st': "st' = st\<lparr>fhe := FHE_allow r s (FHE_allowThis r f4)\<rparr>"
    by (auto simp: calculateMyRank_def FHE_asEuint32_def f1_def split: sum.splits)
  from rank_loop_frame [OF loop] obtain cs where g2: "grows f1 f2" and a2: "acl f2 = acl f1"
    and c2: "calls f2 = calls f1 @ cs" "filter is_allowThis cs = []"
    by blast
  from FHE_add_InrD [OF add] obtain c4 where
    f4: "f4 = issue c4 (CallAdd cnt (fresh f2) r) (issue (U32 1) (CallAsEuint32 1 (fresh f2)) f2)"
    by auto
  show "st' = st\<lparr>fhe := fhe st'\<rparr>"
    by (simp add: st')
  show "acl (fhe st') = insert (r, Party s) (insert (r, Ledger) (acl (fhe st)))"
    by (simp add: st' f4 a2 f1_def)
  have "grows (fhe st) f1" by (simp add: f1_def)
  then have "grows (fhe st) f2" using g2 by (rule grows_trans)
  then show "grows (fhe st) (fhe st')"
    by (simp add: st' f4)
  have "calls (fhe st') = calls (fhe st) @
          (CallAsEuint32 0 (fresh (fhe st)) # cs @ [CallAsEuint32 1 (fresh f2), CallAdd cnt (fresh f2) r])
          @ [CallAllowThis r, CallAllow r s]"
    by (simp add: st' f4 c2 f1_def)
  moreover have "filter is_allowThis
     (CallAsEuint32 0 (fresh (fhe st)) # cs @ [CallAsEuint32 1 (fresh f2), CallAdd cnt (fresh f2) r]) = []"
    using c2(2) by simp
  ultimately show "\<exists>cs. calls (fhe st') = calls (fhe st) @ cs @ [CallAllowThis r, CallAllow r s] \<and>
              filter is_allowThis cs = []"
    by blast
qed

subsection \<open>One call of mine\<close>

lemma check_interval_fhe [simp]: "check_interval (st\<lparr>fhe := f\<rparr>) s now = check_interval st s now"
  by (simp add: check_interval_def)

lemma mine_cases:
  "mine st s now e p =
     (case inputVerifier (fhe st) s e p of
        None \<Rightarrow> Inl InvalidInputProof
      | Some v \<Rightarrow>
          (case check_interval st s now of
             Some err \<Rightarrow> Inl err
           | None \<Rightarrow>
               add_to_totals
                 (register_player
                    (st\<lparr>fhe := FHE_allowThis (fresh (fhe st))
                                 (issue (U32 v) (CallFromExternal (fresh (fhe st))) (fhe st))\<rparr>) s)
                 s now (fresh (fhe st))))"
  by (simp add: mine_def FHE_fromExternal_def Let_def split: option.splits)

lemma mine_InrD:
  assumes "mine st s now e p = Inr st'"
  shows "\<exists>v. inputVerifier (fhe st) s e p = Some v" and "check_interval st s now = None"
  using assms by (auto simp: mine_cases split: option.splits)

lemma register_player_frame:
  "playerAddresses (register_player st s) =
     (if exists (players st s) then playerAddresses st else playerAddresses st @ [s])"
  "q \<noteq> s \<Longrightarrow> players (register_player st s) q = players st q"
  "exists (players (register_player st s) s)"
  "lastMineTime (players (register_player st s) s) = lastMineTime (players st s)"
  "totalMinedAmount (register_player st s) = totalMinedAmount st"
  "rewardToken (register_player st s) = rewardToken st"
  "minMineInterval (register_player st s) = minMineInterval st"
  "events (register_player st s) = events st"
  "acl (fhe (register_player st s)) = acl (fhe st)"
  "grows (fhe st) (fhe (register_player st s))"
  "\<exists>cs. calls (fhe (register_player st s)) = calls (fhe st) @ cs \<and> filter is_allowThis cs = []"
  by (simp_all add: register_player_def FHE_asEuint32_def)

lemma register_player_total:
  "decrypt (fhe (register_player st s)) (totalMined (players (register_player st s) s)) =
     (if exists (players st s) then decrypt (fhe st) (totalMined (players st s)) else Some 0)"
  by (simp add: register_player_def FHE_asEuint32_def)

lemma add_to_totals_InlD: "add_to_totals st s now amount = Inl e \<Longrightarrow> e = BackendFailure"
  by (auto simp: add_to_totals_def split: sum.splits dest: FHE_add_InlD)

lemma add_to_totals_InrD:
  assumes "add_to_totals st s now amount = Inr st'"
  shows "\<exists>c1 c2. st' = st\<lparr>players := (players st)(s :=
                          (players st s)\<lparr>totalMined := fresh (fhe st), lastMineTime := now\<rparr>),
                       totalMinedAmount := Suc (fresh (fhe st)),
                       events := events st @ [PlayerMined s 0],
                       fhe := FHE_allow (fresh (fhe st)) s
                                (FHE_allowThis (fresh (fhe st)) (FHE_allowThis (Suc (fresh (fhe st)))
                                  (issue c2 (CallAdd (totalMinedAmount st) amount (Suc (fresh (fhe st))))
                                    (issue c1 (CallAdd (totalMined (players st s)) amount (fresh (fhe st))) (fhe st)))))\<rparr>"
  using assms
  apply (clarsimp simp: add_to_totals_def split: sum.splits dest!: FHE_add_InrD)
  apply (intro exI)
  apply (rule refl)
  done

lemma add_to_totals_Inr:
  assumes "decrypt (fhe st) (totalMined (players st s)) = Some t"
    and "decrypt (fhe st) amount = Some v"
    and "decrypt (fhe st) (totalMinedAmount st) = Some G"
  shows "add_to_totals st s now amount =
     Inr (st\<lparr>players := (players st)(s :=
                 (players st s)\<lparr>totalMined := fresh (fhe st), lastMineTime := now\<rparr>),
             totalMinedAmount := Suc (fresh (fhe st)),
             events := events st @ [PlayerMined s 0],
             fhe := FHE_allow (fresh (fhe st)) s
                      (FHE_allowThis (fresh (fhe st)) (FHE_allowThis (Suc (fresh (fhe st)))
                        (issue (U32 (G + v)) (CallAdd (totalMinedAmount st) amount (Suc (fresh (fhe st))))
                          (issue (U32 (t + v)) (CallAdd (totalMined (players st s)) amount (fresh (fhe st)))
                             (fhe st)))))\<rparr>)"
proof -
  define f1 where "f1 = issue (U32 (t + v)) (CallAdd (totalMined (players st s)) amount (fresh (fhe st))) (fhe st)"
  have a1: "FHE_add (totalMined (players st s)) amount (fhe st) = Inr (fresh (fhe st), f1)"
    using assms(1,2) by (simp add: FHE_add_Inr f1_def)
  have "decrypt f1 (totalMinedAmount st) = Some G" "decrypt f1 amount = Some v"
    using assms(2,3) by (simp_all add: f1_def)
  then have a2: "FHE_add (totalMinedAmount st) amount f1 =
      Inr (fresh f1, issue (U32 (G + v)) (CallAdd (totalMinedAmount st) amount (fresh f1)) f1)"
    by (simp add: FHE_add_Inr)
  show ?thesis
    using a1 a2 by (simp add: add_to_totals_def f1_def)
qed

lemma mine_succeeds:
  assumes iv: "inputVerifier (fhe st) s e p = Some v"
    and chk: "check_interval st s now = None"
    and G: "decrypt (fhe st) (totalMinedAmount st) = Some G"
    and T: "if exists (players st s) then clearTotal st s = Some t else t = 0"
  shows "\<exists>st'. mine st s now e p = Inr st' \<and>
     playerAddresses st' =
       (if exists (players st s) then playerAddresses st else playerAddresses st @ [s]) \<and>
     (\<forall>q. q \<noteq> s \<longrightarrow> players st' q = players st q) \<and>
     exists (players st' s) \<and> lastMineTime (players st' s) = now \<and>
     clearTotal st' s = Some (t + v) \<and>
     decrypt (fhe st') (totalMinedAmount st') = Some (G + v) \<and>
     grows (fhe st) (fhe st') \<and>
     rewardToken st' = rewardToken st \<and> minMineInterval st' = minMineInterval st"
proof -
  define a where "a = fresh (fhe st)"
  define st1 where
    "st1 = st\<lparr>fhe := FHE_allowThis a (issue (U32 v) (CallFromExternal a) (fhe st))\<rparr>"
  define st2 where "st2 = register_player st1 s"
  have m: "mine st s now e p = add_to_totals st2 s now a"
    using iv chk by (simp add: mine_cases st2_def st1_def a_def)
  have g1: "grows (fhe st) (fhe st1)"
    by (simp add: st1_def)
  have g2: "grows (fhe st) (fhe st2)"
    unfolding st2_def using g1 register_player_frame(10) [of st1 s] by (rule grows_trans)
  have t1: "exists (players st s) \<Longrightarrow> decrypt (fhe st1) (totalMined (players st1 s)) = Some t"
    using T by (simp add: st1_def clearTotal_def)
  have e1: "exists (players st1 s) = exists (players st s)"
    by (simp add: st1_def)
  have t2: "decrypt (fhe st2) (totalMined (players st2 s)) = Some t"
    unfolding st2_def register_player_total using t1 T e1 by (simp split: if_splits)
  have "decrypt (fhe st1) a = Some v"
    by (simp add: st1_def a_def)
  then have v2: "decrypt (fhe st2) a = Some v"
    unfolding st2_def using register_player_frame(10) [of st1 s] by (rule grows_decrypt [rotated])
  have G2: "decrypt (fhe st2) (totalMinedAmount st2) = Some G"
    using grows_decrypt [OF g2 G] by (simp add: st2_def register_player_frame st1_def)
  note r = add_to_totals_Inr [OF t2 v2 G2, of now]
  have pa: "playerAddresses st2 =
       (if exists (players st s) then playerAddresses st else playerAddresses st @ [s])"
    by (simp add: st2_def register_player_frame st1_def)
  have others: "\<And>q. q \<noteq> s \<Longrightarrow> players st2 q = players st q"
    by (simp add: st2_def register_player_frame st1_def)
  have ex2: "exists (players st2 s)"
    by (simp add: st2_def register_player_frame)
  have misc: "rewardToken st2 = rewardToken st" "minMineInterval st2 = minMineInterval st"
    by (simp_all add: st2_def register_player_frame st1_def)
  show ?thesis
    unfolding m r
    apply (rule exI, rule conjI, rule refl)
    apply (simp add: pa others ex2 misc clearTotal_def decrypt_issue)
    apply (rule grows_trans [OF g2])
    apply simp
    done
qed

lemma mine_shape:
  assumes "mine st s now e p = Inr st'"
  shows "\<exists>v f2 c1 c2 t.
           inputVerifier (fhe st) s e p = Some v \<and>
           (\<exists>cs. calls f2 = calls (fhe st) @ CallFromExternal (fresh (fhe st)) #
                    CallAllowThis (fresh (fhe st)) # cs) \<and>
           acl f2 = insert (fresh (fhe st), Ledger) (acl (fhe st)) \<and>
           exists (players st' s) \<and> lastMineTime (players st' s) = now \<and>
           minMineInterval st' = minMineInterval st \<and>
           totalMined (players st' s) = fresh f2 \<and>
           totalMinedAmount st' = Suc (fresh f2) \<and>
           fhe st' = FHE_allow (fresh f2) s (FHE_allowThis (fresh f2) (FHE_allowThis (Suc (fresh f2))
                       (issue c2 (CallAdd (totalMinedAmount st) (fresh (fhe st)) (Suc (fresh f2)))
                          (issue c1 (CallAdd t (fresh (fhe st)) (fresh f2)) f2))))"
proof -
  from mine_InrD [OF assms] obtain v where iv: "inputVerifier (fhe st) s e p = Some v"
    and chk: "check_interval st s now = None" by blast
  define a where "a = fresh (fhe st)"
  define st1 where
    "st1 = st\<lparr>fhe := FHE_allowThis a (issue (U32 v) (CallFromExternal a) (fhe st))\<rparr>"
  define st2 where "st2 = register_player st1 s"
  have m: "add_to_totals st2 s now a = Inr st'"
    using assms iv chk by (simp add: mine_cases st2_def st1_def a_def)
  from add_to_totals_InrD [OF m] obtain c1 c2 where
    st': "st' = st2\<lparr>players := (players st2)(s :=
                          (players st2 s)\<lparr>totalMined := fresh (fhe st2), lastMineTime := now\<rparr>),
                       totalMinedAmount := Suc (fresh (fhe st2)),
                       events := events st2 @ [PlayerMined s 0],
                       fhe := FHE_allow (fresh (fhe st2)) s
                                (FHE_allowThis (fresh (fhe st2)) (FHE_allowThis (Suc (fresh (fhe st2)))
                                  (issue c2 (CallAdd (totalMinedAmount st2) a (Suc (fresh (fhe st2))))
                                    (issue c1 (CallAdd (totalMined (players st2 s)) a (fresh (fhe st2))) (fhe st2)))))\<rparr>"
    by blast
  have g: "totalMinedAmount st2 = totalMinedAmount st"
    by (simp add: st2_def register_player_frame st1_def)
  have acl2: "acl (fhe st2) = insert (a, Ledger) (acl (fhe st))"
    by (simp add: st2_def register_player_frame st1_def)
  from register_player_frame(11) [of st1 s] obtain cs where
    "calls (fhe st2) = calls (fhe st1) @ cs"
    unfolding st2_def by blast
  then have calls2: "\<exists>cs. calls (fhe st2) = calls (fhe st) @ CallFromExternal a # CallAllowThis a # cs"
    by (simp add: st1_def)
  have ex2: "exists (players st2 s)"
    by (simp add: st2_def register_player_frame)
  have mi2: "minMineInterval st2 = minMineInterval st"
    by (simp add: st2_def register_player_frame st1_def)
  show ?thesis
    apply (rule exI [of _ v], rule exI [of _ "fhe st2"], rule exI [of _ c1], rule exI [of _ c2],
        rule exI [of _ "totalMined (players st2 s)"])
    using iv calls2 acl2 g ex2 mi2
    apply (simp add: a_def st')
    done
qed

subsection \<open>The invariant\<close>

lemma sum_list_bump:
  fixes f g :: "'a \<Rightarrow> 32 word"
  assumes "distinct xs" and "s \<in> set xs" and "\<forall>q\<in>set xs. q \<noteq> s \<longrightarrow> g q = f q"
    and "g s = f s + v"
  shows "sum_list (map g xs) = sum_list (map f xs) + v"
  using assms
proof (induction xs)
  case Nil
  then show ?case by simp
next
  case (Cons x xs)
  show ?case
  proof (cases "x = s")
    case True
    then have "s \<notin> set xs" using Cons.prems(1) by simp
    then have "map g xs = map f xs" using Cons.prems(3) by (auto intro!: map_cong)
    then have "sum_list (map g xs) = sum_list (map f xs)" by (rule arg_cong)
    with True Cons.prems(4) show ?thesis by (simp add: add.commute add.left_commute)
  next
    case False
    then have "sum_list (map g xs) = sum_list (map f xs) + v"
      using Cons by simp
    with False Cons.prems(3) show ?thesis by (simp add: add.assoc)
  qed
qed

lemma ledger_inv_constructor: "ledger_inv (constructor f rt mi)"
  by (simp add: ledger_inv_def constructor_def FHE_asEuint32_def noPlayer_def)

lemma mine_preserves:
  assumes inv: "ledger_inv st" and m: "mine st s now e p = Inr st'"
  shows "ledger_inv st'"
    and "\<exists>v. inputVerifier (fhe st) s e p = Some v \<and>
            sum_list (map (total_of st') (playerAddresses st')) =
              sum_list (map (total_of st) (playerAddresses st)) + v"
    and "playerAddresses st' =
       (if s \<in> set (playerAddresses st) then playerAddresses st else playerAddresses st @ [s])"
proof -
  from mine_InrD [OF m] obtain v where iv: "inputVerifier (fhe st) s e p = Some v"
    and chk: "check_interval st s now = None" by blast
  define t where "t = (if exists (players st s) then total_of st s else 0)"
  have ex: "exists (players st s) \<longleftrightarrow> s \<in> set (playerAddresses st)"
    using inv by (simp add: ledger_inv_def)
  have T: "if exists (players st s) then clearTotal st s = Some t else t = 0"
    using inv ex by (simp add: t_def ledger_inv_def)
  have G: "decrypt (fhe st) (totalMinedAmount st) =
             Some (sum_list (map (total_of st) (playerAddresses st)))"
    using inv by (simp add: ledger_inv_def)
  from mine_succeeds [OF iv chk G T] m
  have pa: "playerAddresses st' =
         (if exists (players st s) then playerAddresses st else playerAddresses st @ [s])"
    and others: "\<And>q. q \<noteq> s \<Longrightarrow> players st' q = players st q"
    and exs: "exists (players st' s)"
    and ts: "clearTotal st' s = Some (t + v)"
    and G': "decrypt (fhe st') (totalMinedAmount st') =
               Some (sum_list (map (total_of st) (playerAddresses st)) + v)"
    and gr: "grows (fhe st) (fhe st')"
    by auto
  show pa': "playerAddresses st' =
       (if s \<in> set (playerAddresses st) then playerAddresses st else playerAddresses st @ [s])"
    using pa ex by simp
  have old: "clearTotal st' q = Some (total_of st q)"
    if "q \<in> set (playerAddresses st)" "q \<noteq> s" for q
  proof -
    have "clearTotal st q = Some (total_of st q)"
      using inv that(1) by (simp add: ledger_inv_def)
    then show ?thesis
      using grows_decrypt [OF gr] others [OF that(2)] by (simp add: clearTotal_def)
  qed
  have tot_old: "total_of st' q = total_of st q"
    if "q \<in> set (playerAddresses st)" "q \<noteq> s" for q
    using old [OF that] by (simp add: total_of_def)
  have tot_s: "total_of st' s = t + v"
    using ts by (simp add: total_of_def)
  show sum: "\<exists>v. inputVerifier (fhe st) s e p = Some v \<and>
            sum_list (map (total_of st') (playerAddresses st')) =
              sum_list (map (total_of st) (playerAddresses st)) + v"
  proof (cases "s \<in> set (playerAddresses st)")
    case True
    have "sum_list (map (total_of st') (playerAddresses st)) =
            sum_list (map (total_of st) (playerAddresses st)) + v"
      using inv True tot_old tot_s ex
      by (intro sum_list_bump) (auto simp: ledger_inv_def t_def)
    with True pa' iv show ?thesis by simp
  next
    case False
    then have "map (total_of st') (playerAddresses st) = map (total_of st) (playerAddresses st)"
      using tot_old by (auto intro!: map_cong)
    then have "sum_list (map (total_of st') (playerAddresses st)) =
               sum_list (map (total_of st) (playerAddresses st))"
      by (rule arg_cong)
    with False pa' iv tot_s ex show ?thesis by (simp add: t_def)
  qed
  have dist: "distinct (playerAddresses st')"
    using inv pa' by (simp add: ledger_inv_def)
  have reg: "\<forall>q. exists (players st' q) \<longleftrightarrow> q \<in> set (playerAddresses st')"
  proof
    fix q
    show "exists (players st' q) \<longleftrightarrow> q \<in> set (playerAddresses st')"
    proof (cases "q = s")
      case True
      with exs pa' show ?thesis by simp
    next
      case False
      with others [OF False] inv pa' show ?thesis by (simp add: ledger_inv_def)
    qed
  qed
  have tots: "\<forall>q\<in>set (playerAddresses st'). clearTotal st' q = Some (total_of st' q)"
  proof
    fix q assume q: "q \<in> set (playerAddresses st')"
    show "clearTotal st' q = Some (total_of st' q)"
    proof (cases "q = s")
      case True
      with ts tot_s show ?thesis by simp
    next
      case False
      with q pa' have "q \<in> set (playerAddresses st)" by (simp split: if_splits)
      with False old tot_old show ?thesis by simp
    qed
  qed
  from sum iv G' have "decrypt (fhe st') (totalMinedAmount st') =
      Some (sum_list (map (total_of st') (playerAddresses st')))"
    by auto
  with dist reg tots show "ledger_inv st'"
    by (simp add: ledger_inv_def)
qed

lemma ledger_inv_grows:
  assumes "ledger_inv st" and "grows (fhe st) f'"
  shows "ledger_inv (st\<lparr>fhe := f'\<rparr>)"
proof -
  have ct: "clearTotal (st\<lparr>fhe := f'\<rparr>) p = Some (total_of st p)"
    if "p \<in> set (playerAddresses st)" for p
    using assms that grows_decrypt [OF assms(2)] by (simp add: ledger_inv_def clearTotal_def)
  then have tot: "total_of (st\<lparr>fhe := f'\<rparr>) p = total_of st p"
    if "p \<in> set (playerAddresses st)" for p
    using that by (simp add: total_of_def)
  then have "map (total_of (st\<lparr>fhe := f'\<rparr>)) (playerAddresses st) =
             map (total_of st) (playerAddresses st)"
    by (auto intro!: map_cong)
  then have "sum_list (map (total_of (st\<lparr>fhe := f'\<rparr>)) (playerAddresses st)) =
             sum_list (map (total_of st) (playerAddresses st))"
    by (rule arg_cong)
  moreover have "decrypt f' (totalMinedAmount st) =
      Some (sum_list (map (total_of st) (playerAddresses st)))"
    using assms grows_decrypt [OF assms(2)] by (simp add: ledger_inv_def)
  ultimately show ?thesis
    using assms(1) ct tot by (simp add: ledger_inv_def)
qed

lemma clearTotal_events [simp]: "clearTotal (st\<lparr>events := es\<rparr>) = clearTotal st"
  by (rule ext) (simp add: clearTotal_def)

lemma total_of_events [simp]: "total_of (st\<lparr>events := es\<rparr>) = total_of st"
  by (rule ext) (simp add: total_of_def)

lemma ledger_inv_events [simp]: "ledger_inv (st\<lparr>events := es\<rparr>) = ledger_inv st"
  by (simp add: ledger_inv_def)

lemma calculateMyRank_correct:
  assumes inv: "ledger_inv st" and ex: "exists (players st s)"
  shows "\<exists>r st'. calculateMyRank st s = Inr (r, st') \<and>
           decrypt (fhe st') r = Some (of_nat (length (higher st s)) + 1)"
proof -
  define f1 where "f1 = issue (U32 0) (CallAsEuint32 0 (fresh (fhe st))) (fhe st)"
  have s: "s \<in> set (playerAddresses st)"
    using inv ex by (simp add: ledger_inv_def)
  have tot: "clearTotal st q = Some (total_of st q)" if "q \<in> set (playerAddresses st)" for q
    using inv that by (simp add: ledger_inv_def)
  have a1: "\<forall>q\<in>set (playerAddresses st). q \<noteq> s \<longrightarrow>
              decrypt f1 (totalMined (players st q)) = Some (total_of st q)"
    using tot by (simp add: f1_def clearTotal_def)
  have a2: "decrypt f1 (totalMined (players st s)) = Some (total_of st s)"
    using tot [OF s] by (simp add: f1_def clearTotal_def)
  have a3: "decrypt f1 (fresh (fhe st)) = Some 0"
    by (simp add: f1_def)
  from rank_loop_correct [OF a1 a2 a3] obtain cnt f2 where
    loop: "rank_loop (players st) s (totalMined (players st s)) (playerAddresses st)
             (fresh (fhe st)) f1 = Inr (cnt, f2)"
    and d: "decrypt f2 cnt = Some (0 + of_nat (length
               (filter (\<lambda>q. q \<noteq> s \<and> total_of st s < total_of st q) (playerAddresses st))))"
    by blast
  have "filter (\<lambda>q. q \<noteq> s \<and> total_of st s < total_of st q) (playerAddresses st) = higher st s"
    unfolding higher_def using tot tot [OF s] by (intro filter_cong) (auto simp: beats_def)
  with d have d': "decrypt f2 cnt = Some (of_nat (length (higher st s)))"
    by simp
  define f3 where "f3 = issue (U32 1) (CallAsEuint32 1 (fresh f2)) f2"
  have "decrypt f3 cnt = Some (of_nat (length (higher st s)))" "decrypt f3 (fresh f2) = Some 1"
    using d' by (simp_all add: f3_def)
  then have add: "FHE_add cnt (fresh f2) f3 =
      Inr (fresh f3, issue (U32 (of_nat (length (higher st s)) + 1)) (CallAdd cnt (fresh f2) (fresh f3)) f3)"
    by (rule FHE_add_Inr)
  show ?thesis
    using ex loop add
    by (simp add: calculateMyRank_def FHE_asEuint32_def f1_def [symmetric] f3_def [symmetric]
        decrypt_issue del: fresh_issue)
qed

lemma calculateMyRank_keeps_ledger:
  assumes inv: "ledger_inv st" and c: "calculateMyRank st s = Inr (r, st')"
  shows "ledger_inv st'"
    and "playerAddresses st' = playerAddresses st"
    and "sum_list (map (total_of st') (playerAddresses st')) =
           sum_list (map (total_of st) (playerAddresses st))"
proof -
  from calculateMyRank_frame(1) [OF c] obtain f' where st': "st' = st\<lparr>fhe := f'\<rparr>"
    by blast
  have g: "grows (fhe st) f'"
    using calculateMyRank_frame(4) [OF c] by (simp add: st')
  show inv': "ledger_inv st'"
    unfolding st' by (rule ledger_inv_grows [OF inv g])
  show pa: "playerAddresses st' = playerAddresses st"
    by (simp add: st')
  have "decrypt (fhe st') (totalMinedAmount st') =
          Some (sum_list (map (total_of st) (playerAddresses st)))"
    using inv grows_decrypt [OF g] by (simp add: ledger_inv_def st')
  with inv' show "sum_list (map (total_of st') (playerAddresses st')) =
           sum_list (map (total_of st) (playerAddresses st))"
    by (simp add: ledger_inv_def)
qed

lemma step_inv:
  assumes "ledger_inv st"
  shows "ledger_inv (step st t)"
proof (cases t)
  case (Mine s now e p)
  then show ?thesis
    using assms mine_preserves(1) [OF assms, of s now e p]
    by (simp add: step_def split: sum.splits)
next
  case (CalculateMyRank s)
  show ?thesis
  proof (cases "calculateMyRank st s")
    case (Inl e)
    with CalculateMyRank assms show ?thesis by (simp add: step_def)
  next
    case (Inr res)
    obtain r st' where res: "res = (r, st')" by (cases res)
    from calculateMyRank_keeps_ledger(1) [OF assms Inr [unfolded res]]
    have "ledger_inv st'" .
    with CalculateMyRank Inr res show ?thesis by (simp add: step_def)
  qed
next
  case (DistributeReward pl amt)
  then show ?thesis
    using assms by (simp add: step_def distributeReward_def)
qed

lemma step_effect:
  assumes "ledger_inv st"
  shows "sum_list (map (total_of (step st t)) (playerAddresses (step st t))) =
           sum_list (map (total_of st) (playerAddresses st)) +
           sum_list (map snd (case mined st t of None \<Rightarrow> [] | Some c \<Rightarrow> [c]))"
    and "playerAddresses (step st t) =
           playerAddresses st @ filter (\<lambda>p. p \<notin> set (playerAddresses st))
             (map fst (case mined st t of None \<Rightarrow> [] | Some c \<Rightarrow> [c]))"
proof -
  have "sum_list (map (total_of (step st t)) (playerAddresses (step st t))) =
           sum_list (map (total_of st) (playerAddresses st)) +
           sum_list (map snd (case mined st t of None \<Rightarrow> [] | Some c \<Rightarrow> [c])) \<and>
        playerAddresses (step st t) =
           playerAddresses st @ filter (\<lambda>p. p \<notin> set (playerAddresses st))
             (map fst (case mined st t of None \<Rightarrow> [] | Some c \<Rightarrow> [c]))"
  proof (cases t)
    case (Mine s now e p)
    show ?thesis
    proof (cases "mine st s now e p")
      case (Inl err)
      with Mine show ?thesis by (simp add: step_def mined_def)
    next
      case (Inr st')
      from mine_preserves(2,3) [OF assms Inr] Mine Inr show ?thesis
        by (auto simp: step_def mined_def)
    qed
  next
    case (CalculateMyRank s)
    show ?thesis
    proof (cases "calculateMyRank st s")
      case (Inl e)
      with CalculateMyRank show ?thesis by (simp add: step_def mined_def)
    next
      case (Inr res)
      obtain r st' where res: "res = (r, st')" by (cases res)
      from calculateMyRank_keeps_ledger(2,3) [OF assms Inr [unfolded res]]
        CalculateMyRank Inr res
      show ?thesis
        by (simp add: step_def mined_def)
    qed
  next
    case (DistributeReward pl amt)
    then show ?thesis
      by (simp add: step_def mined_def distributeReward_def)
  qed
  then show "sum_list (map (total_of (step st t)) (playerAddresses (step st t))) =
           sum_list (map (total_of st) (playerAddresses st)) +
           sum_list (map snd (case mined st t of None \<Rightarrow> [] | Some c \<Rightarrow> [c]))"
    and "playerAddresses (step st t) =
           playerAddresses st @ filter (\<lambda>p. p \<notin> set (playerAddresses st))
             (map fst (case mined st t of None \<Rightarrow> [] | Some c \<Rightarrow> [c]))"
    by blast+
qed

subsection \<open>Runs\<close>

lemma set_first_occurrences [simp]: "set (first_occurrences xs) = set xs"
  by (induction xs) auto

lemma distinct_first_occurrences [simp]: "distinct (first_occurrences xs)"
  by (induction xs) auto

lemma length_first_occurrences: "length (first_occurrences xs) = card (set xs)"
  using distinct_card [OF distinct_first_occurrences, of xs] by simp

lemma filter_notin_bump:
  "filter (\<lambda>p. p \<notin> set (xs @ filter (\<lambda>p. p \<notin> set xs) ys)) zs =
   filter (\<lambda>p. p \<notin> set xs) (filter (\<lambda>p. p \<notin> set ys) zs)"
  by (induction zs) auto

lemma first_occurrences_append:
  "first_occurrences (cs @ ds) =
     first_occurrences cs @ filter (\<lambda>p. p \<notin> set cs) (first_occurrences ds)"
proof (induction cs)
  case Nil
  then show ?case by simp
next
  case (Cons c cs)
  have "filter (\<lambda>y. y \<noteq> c) (filter (\<lambda>p. p \<notin> set cs) (first_occurrences ds)) =
        filter (\<lambda>p. p \<noteq> c \<and> p \<notin> set cs) (first_occurrences ds)"
    by (simp add: conj_commute)
  with Cons show ?case by simp
qed

lemma run_Cons [simp]: "run st (t # ts) = run (step st t) ts"
  by (simp add: run_def)

lemma run_Nil [simp]: "run st [] = st"
  by (simp add: run_def)

lemma run_inv: "ledger_inv st \<Longrightarrow> ledger_inv (run st ts)"
  by (induction ts arbitrary: st) (simp_all add: step_inv)

lemma run_sum:
  "ledger_inv st \<Longrightarrow>
   sum_list (map (total_of (run st ts)) (playerAddresses (run st ts))) =
     sum_list (map (total_of st) (playerAddresses st)) + sum_list (map snd (contributions st ts))"
proof (induction ts arbitrary: st)
  case Nil
  then show ?case by simp
next
  case (Cons t ts)
  from Cons.IH [OF step_inv [OF Cons.prems]] step_effect(1) [OF Cons.prems, of t]
  show ?case by (simp add: add.assoc)
qed

lemma run_addrs:
  "ledger_inv st \<Longrightarrow>
   playerAddresses (run st ts) =
     playerAddresses st @
       filter (\<lambda>p. p \<notin> set (playerAddresses st)) (first_occurrences (map fst (contributions st ts)))"
proof (induction ts arbitrary: st)
  case Nil
  then show ?case by simp
next
  case (Cons t ts)
  define new where "new = map fst (case mined st t of None \<Rightarrow> [] | Some c \<Rightarrow> [c])"
  define later where "later = map fst (contributions (step st t) ts)"
  have s: "playerAddresses (step st t) =
             playerAddresses st @ filter (\<lambda>p. p \<notin> set (playerAddresses st)) new"
    using step_effect(2) [OF Cons.prems, of t] by (simp add: new_def)
  have "playerAddresses (run (step st t) ts) =
          playerAddresses (step st t) @
            filter (\<lambda>p. p \<notin> set (playerAddresses (step st t))) (first_occurrences later)"
    using Cons.IH [OF step_inv [OF Cons.prems]] by (simp add: later_def)
  also have "\<dots> = playerAddresses st @ filter (\<lambda>p. p \<notin> set (playerAddresses st)) new @
            filter (\<lambda>p. p \<notin> set (playerAddresses st))
              (filter (\<lambda>p. p \<notin> set new) (first_occurrences later))"
    unfolding s filter_notin_bump by simp
  also have "\<dots> = playerAddresses st @ filter (\<lambda>p. p \<notin> set (playerAddresses st))
              (first_occurrences (new @ later))"
  proof -
    have "first_occurrences new = new"
      by (simp add: new_def split: option.splits)
    then show ?thesis
      by (simp add: first_occurrences_append)
  qed
  finally show ?case
    by (simp add: new_def later_def)
qed

lemma constructor_fields [simp]:
  "playerAddresses (constructor f rt mi) = []"
  "rewardToken (constructor f rt mi) = rt"
  "minMineInterval (constructor f rt mi) = mi"
  "players (constructor f rt mi) = (\<lambda>_. noPlayer)"
  by (simp_all add: constructor_def FHE_asEuint32_def)

lemmas ledger_defs =
  run_def step_def mine_def constructor_def FHE_fromExternal_def FHE_asEuint32_def FHE_add_def
  FHE_gt_def FHE_select_def FHE_allowThis_def FHE_allow_def issue_def fresh_def clearOf_def
  decrypt_def check_interval_def checked_add_def register_player_def add_to_totals_def
  noPlayer_def calculateMyRank_def distributeReward_def Let_def
  getPlayerTotalMined_def getTotalMinedAmount_def getPlayerCount_def getPlayerAddress_def
  playerExists_def getPlayerLastMineTime_def clearTotal_def total_of_def mined_def
  beats_def higher_def
  demo_verifier_def empty_backend_def alice_def bob_def genesis_def scenario_def

subsection \<open>The global total\<close>

text \<open>
  C1. Start from the constructor, on any backend, and run any sequence of transactions. The
  successful mines among them are the contributions. Then the global total decrypts to the sum
  of the contributed cleartext amounts, every registered player's total has a cleartext, and
  these cleartexts add up to the same sum. All sums are taken in 32-bit words, that is modulo
  \<open>2 ^ 32\<close>.
\<close>

theorem global_total_is_sum_of_contributions:
  assumes "st = run (constructor f rt mi) ts"
  shows "decrypt (fhe st) (totalMinedAmount st) =
           Some (sum_list (map snd (contributions (constructor f rt mi) ts))) \<and>
         map (clearTotal st) (playerAddresses st) = map (Some \<circ> total_of st) (playerAddresses st) \<and>
         sum_list (map (total_of st) (playerAddresses st)) =
           sum_list (map snd (contributions (constructor f rt mi) ts))"
proof -
  have inv0: "ledger_inv (constructor f rt mi)"
    by (rule ledger_inv_constructor)
  have inv: "ledger_inv st"
    unfolding assms by (rule run_inv [OF inv0])
  have sum: "sum_list (map (total_of st) (playerAddresses st)) =
               sum_list (map snd (contributions (constructor f rt mi) ts))"
    unfolding assms using run_sum [OF inv0, of ts] by simp
  from inv sum show ?thesis
    by (simp add: ledger_inv_def)
qed

theorem global_total_is_sum_of_contributions_witness:
  "decrypt (fhe (run genesis scenario)) (totalMinedAmount (run genesis scenario)) = Some 35 \<and>
   map (clearTotal (run genesis scenario)) (playerAddresses (run genesis scenario)) = [Some 15, Some 20] \<and>
   map snd (contributions genesis scenario) = [10, 5, 20]"
proof -
  have c: "map snd (contributions genesis scenario) = [10, 5, 20]"
    by (simp add: ledger_defs)
  have t: "map (clearTotal (run genesis scenario)) (playerAddresses (run genesis scenario)) = [Some 15, Some 20]"
    by (simp add: ledger_defs)
  from global_total_is_sum_of_contributions [of "run genesis scenario" empty_backend 0 10 scenario] c t
  show ?thesis
    by (simp add: genesis_def)
qed

subsection \<open>The registry\<close>

lemma count_list_distinct:
  "distinct xs \<Longrightarrow> count_list xs x = (if x \<in> set xs then 1 else 0)"
  by (induction xs) auto

lemma run_registry:
  "playerAddresses (run (constructor f rt mi) ts) =
     first_occurrences (map fst (contributions (constructor f rt mi) ts))"
  using run_addrs [OF ledger_inv_constructor, of f rt mi ts] by simp

text \<open>
  C5. In every state reached from the constructor by any sequence of transactions, a principal
  is in \<open>playerAddresses\<close> exactly when its record has \<open>exists\<close> set, it occurs there once
  and never twice, and \<open>getPlayerCount\<close> is the number of distinct principals among the
  successful mines, however often each of them mined.
\<close>

theorem registry_lists_each_contributor_once:
  assumes "st = run (constructor f rt mi) ts"
  shows "(\<forall>p. p \<in> set (playerAddresses st) \<longleftrightarrow> exists (players st p)) \<and>
         (\<forall>p. count_list (playerAddresses st) p = (if exists (players st p) then 1 else 0)) \<and>
         getPlayerCount st = card (set (map fst (contributions (constructor f rt mi) ts)))"
proof -
  have inv: "ledger_inv st"
    unfolding assms by (rule run_inv [OF ledger_inv_constructor])
  then have mem: "\<forall>p. p \<in> set (playerAddresses st) \<longleftrightarrow> exists (players st p)"
    by (simp add: ledger_inv_def)
  have "distinct (playerAddresses st)"
    using inv by (simp add: ledger_inv_def)
  then have cnt: "\<forall>p. count_list (playerAddresses st) p = (if exists (players st p) then 1 else 0)"
    using mem by (simp add: count_list_distinct)
  have "getPlayerCount st = card (set (map fst (contributions (constructor f rt mi) ts)))"
    unfolding getPlayerCount_def assms run_registry by (rule length_first_occurrences)
  with mem cnt show ?thesis by blast
qed

theorem registry_lists_each_contributor_once_witness:
  "count_list (playerAddresses (run genesis scenario)) alice = 1 \<and>
   count_list (playerAddresses (run genesis scenario)) 3 = 0 \<and>
   map fst (contributions genesis scenario) = [alice, alice, bob] \<and>
   getPlayerCount (run genesis scenario) = 2"
proof -
  have l: "map fst (contributions genesis scenario) = [alice, alice, bob]"
    by (simp add: ledger_defs)
  then have "set (map fst (contributions genesis scenario)) = {alice, bob}"
    by (simp only: list.set insert_absorb2)
  then have c: "fst ` set (contributions genesis scenario) = {alice, bob}"
    by simp
  have e: "exists (players (run genesis scenario) alice)" "\<not> exists (players (run genesis scenario) 3)"
    by (simp_all add: ledger_defs)
  have ab: "alice \<noteq> bob"
    by (simp add: alice_def bob_def)
  from registry_lists_each_contributor_once [of "run genesis scenario" empty_backend 0 10 scenario] c e ab l
  show ?thesis
    by (simp add: genesis_def)
qed

text \<open>
  C10. \<open>getPlayerAddress\<close> is a view: it returns a value and no state. In every state reached
  from the constructor, an index below \<open>getPlayerCount\<close> yields the principal at that position
  in the order of first successful mines; any other index fails with the out-of-bounds error.
\<close>

theorem getPlayerAddress_follows_first_mine_order:
  assumes "st = run (constructor f rt mi) ts"
  shows "getPlayerAddress st index =
           (if index < getPlayerCount st
            then Inr (first_occurrences (map fst (contributions (constructor f rt mi) ts)) ! index)
            else Inl IndexOutOfBounds)"
  unfolding assms getPlayerAddress_def getPlayerCount_def run_registry by simp

theorem getPlayerAddress_follows_first_mine_order_witness:
  "getPlayerCount (run genesis scenario) = 2 \<and>
   getPlayerAddress (run genesis scenario) 0 = Inr alice \<and>
   getPlayerAddress (run genesis scenario) 1 = Inr bob \<and>
   getPlayerAddress (run genesis scenario) 2 = Inl IndexOutOfBounds"
proof -
  have c: "map fst (contributions genesis scenario) = [alice, alice, bob]"
    by (simp add: ledger_defs)
  have n: "getPlayerCount (run genesis scenario) = 2"
    by (simp add: ledger_defs)
  have ab: "alice \<noteq> bob"
    by (simp add: alice_def bob_def)
  from getPlayerAddress_follows_first_mine_order [of "run genesis scenario" empty_backend 0 10 scenario 0]
       getPlayerAddress_follows_first_mine_order [of "run genesis scenario" empty_backend 0 10 scenario 1]
       getPlayerAddress_follows_first_mine_order [of "run genesis scenario" empty_backend 0 10 scenario 2]
       c n ab
  show ?thesis
    by (simp add: genesis_def)
qed

subsection \<open>Ranking\<close>

lemma higher_set:
  assumes "ledger_inv st"
  shows "distinct (higher st p)"
    and "set (higher st p) = {q. q \<noteq> p \<and> exists (players st q) \<and> beats st q p}"
  using assms by (auto simp: higher_def ledger_inv_def)

text \<open>
  C2. Take a state reached from the constructor and a principal \<open>P\<close> with a record. The
  list \<open>higher st P\<close> enumerates, without repetition, exactly the other registered principals
  whose cleartext total is strictly greater than that of \<open>P\<close>; let \<open>k\<close> be its length.
  Then \<open>calculateMyRank\<close> succeeds and the handle it returns decrypts to \<open>k + 1\<close> as a 32-bit
  value, which is the number \<open>k + 1\<close> itself as long as \<open>k + 1\<close> fits in 32 bits. With no
  strictly greater total the rank is 1; an equal total is not in the list.
\<close>

theorem rank_is_one_plus_strictly_greater:
  assumes "st = run (constructor f rt mi) ts" and "exists (players st P)"
  shows "\<exists>r st'. calculateMyRank st P = Inr (r, st') \<and>
           decrypt (fhe st') r = Some (word_of_nat (length (higher st P) + 1)) \<and>
           (length (higher st P) + 1 < 2 ^ 32 \<longrightarrow>
              map_option unat (decrypt (fhe st') r) = Some (length (higher st P) + 1)) \<and>
           distinct (higher st P) \<and>
           set (higher st P) = {q. q \<noteq> P \<and> exists (players st q) \<and> beats st q P} \<and>
           (\<forall>q. clearTotal st q = clearTotal st P \<longrightarrow> q \<notin> set (higher st P))"
proof -
  have inv: "ledger_inv st"
    unfolding assms(1) by (rule run_inv [OF ledger_inv_constructor])
  from calculateMyRank_correct [OF inv assms(2)] obtain r st' where
    c: "calculateMyRank st P = Inr (r, st')"
    and d: "decrypt (fhe st') r = Some (of_nat (length (higher st P)) + 1)"
    by blast
  have d': "decrypt (fhe st') r = Some (word_of_nat (length (higher st P) + 1))"
    using d by simp
  have u: "length (higher st P) + 1 < 2 ^ 32 \<Longrightarrow>
      unat (word_of_nat (length (higher st P) + 1) :: 32 word) = length (higher st P) + 1"
    by (simp add: unat_of_nat take_bit_nat_eq_self del: of_nat_Suc of_nat_add)
  have ties: "\<forall>q. clearTotal st q = clearTotal st P \<longrightarrow> q \<notin> set (higher st P)"
    by (auto simp: higher_def beats_def split: option.splits)
  from c d' u higher_set [OF inv, of P] ties show ?thesis
    by (auto simp del: of_nat_Suc of_nat_add)
qed

theorem rank_is_one_plus_strictly_greater_witness:
  "higher (run genesis scenario) alice = [bob] \<and> higher (run genesis scenario) bob = [] \<and>
   (\<exists>r st'. calculateMyRank (run genesis scenario) alice = Inr (r, st') \<and> decrypt (fhe st') r = Some 2) \<and>
   (\<exists>r st'. calculateMyRank (run genesis scenario) bob = Inr (r, st') \<and> decrypt (fhe st') r = Some 1)"
proof -
  have h: "higher (run genesis scenario) alice = [bob]" "higher (run genesis scenario) bob = []"
    by (simp_all add: ledger_defs)
  have e: "exists (players (run genesis scenario) alice)" "exists (players (run genesis scenario) bob)"
    by (simp_all add: ledger_defs)
  have a: "\<exists>r st'. calculateMyRank (run genesis scenario) alice = Inr (r, st') \<and>
             decrypt (fhe st') r = Some 2"
    using rank_is_one_plus_strictly_greater [of "run genesis scenario" empty_backend 0 10 scenario alice]
      h(1) e(1) by (simp add: genesis_def) blast
  have b: "\<exists>r st'. calculateMyRank (run genesis scenario) bob = Inr (r, st') \<and>
             decrypt (fhe st') r = Some 1"
    using rank_is_one_plus_strictly_greater [of "run genesis scenario" empty_backend 0 10 scenario bob]
      h(2) e(2) by (simp add: genesis_def) blast
  from h a b show ?thesis
    by simp
qed

text \<open>
  C9. In any state and for any caller, a successful \<open>calculateMyRank\<close> changes nothing but
  the backend: the records, the registry, the global total and the configuration are as before,
  every total keeps its cleartext, and the grant relation gains exactly the two grants on the
  returned handle. A call that reverts leaves the state as it was.
\<close>

theorem calculateMyRank_changes_only_grants:
  "(calculateMyRank st s = Inr (r, st') \<longrightarrow>
      players st' = players st \<and> playerAddresses st' = playerAddresses st \<and>
      totalMinedAmount st' = totalMinedAmount st \<and> rewardToken st' = rewardToken st \<and>
      minMineInterval st' = minMineInterval st \<and> events st' = events st \<and>
      acl (fhe st') = acl (fhe st) \<union> {(r, Ledger), (r, Party s)} \<and>
      (\<forall>p v. clearTotal st p = Some v \<longrightarrow> clearTotal st' p = Some v) \<and>
      step st (CalculateMyRank s) = st') \<and>
   (calculateMyRank st s = Inl e \<longrightarrow> step st (CalculateMyRank s) = st)"
proof (intro conjI impI)
  assume c: "calculateMyRank st s = Inr (r, st')"
  note fr = calculateMyRank_frame [OF c]
  obtain f' where st': "st' = st\<lparr>fhe := f'\<rparr>"
    using fr(1) by blast
  show "players st' = players st" "playerAddresses st' = playerAddresses st"
    "totalMinedAmount st' = totalMinedAmount st" "rewardToken st' = rewardToken st"
    "minMineInterval st' = minMineInterval st" "events st' = events st"
    by (simp_all add: st')
  show "acl (fhe st') = acl (fhe st) \<union> {(r, Ledger), (r, Party s)}"
    using fr(3) by auto
  show "\<forall>p v. clearTotal st p = Some v \<longrightarrow> clearTotal st' p = Some v"
    using grows_decrypt [OF fr(4)] by (simp add: clearTotal_def st')
  show "step st (CalculateMyRank s) = st'"
    using c by (simp add: step_def)
next
  assume "calculateMyRank st s = Inl e"
  then show "step st (CalculateMyRank s) = st"
    by (simp add: step_def)
qed

theorem calculateMyRank_changes_only_grants_witness:
  "players (run genesis (scenario @ [CalculateMyRank alice])) = players (run genesis scenario) \<and>
   playerAddresses (run genesis (scenario @ [CalculateMyRank alice])) = [alice, bob] \<and>
   totalMinedAmount (run genesis (scenario @ [CalculateMyRank alice])) =
     totalMinedAmount (run genesis scenario) \<and>
   acl (fhe (run genesis (scenario @ [CalculateMyRank alice]))) =
     acl (fhe (run genesis scenario)) \<union> {(20, Ledger), (20, Party alice)} \<and>
   calculateMyRank genesis alice = Inl PlayerDoesNotExist \<and>
   step genesis (CalculateMyRank alice) = genesis"
proof -
  have c: "calculateMyRank (run genesis scenario) alice =
             Inr (20, run genesis (scenario @ [CalculateMyRank alice]))"
    by (simp add: ledger_defs)
  have n: "calculateMyRank genesis alice = Inl PlayerDoesNotExist"
    by (simp add: ledger_defs)
  have a: "playerAddresses (run genesis scenario) = [alice, bob]"
    by (simp add: ledger_defs)
  from calculateMyRank_changes_only_grants
         [of "run genesis scenario" alice 20 "run genesis (scenario @ [CalculateMyRank alice])"] c
  have "players (run genesis (scenario @ [CalculateMyRank alice])) = players (run genesis scenario) \<and>
        playerAddresses (run genesis (scenario @ [CalculateMyRank alice])) =
          playerAddresses (run genesis scenario) \<and>
        totalMinedAmount (run genesis (scenario @ [CalculateMyRank alice])) =
          totalMinedAmount (run genesis scenario) \<and>
        acl (fhe (run genesis (scenario @ [CalculateMyRank alice]))) =
          acl (fhe (run genesis scenario)) \<union> {(20, Ledger), (20, Party alice)}"
    by blast
  moreover
  from calculateMyRank_changes_only_grants [of genesis alice _ _ PlayerDoesNotExist] n
  have "step genesis (CalculateMyRank alice) = genesis"
    by blast
  ultimately show ?thesis
    using n a by simp
qed

subsection \<open>Grants\<close>

text \<open>
  C6. In any state, a successful \<open>mine\<close> by \<open>P\<close> leaves the pair of \<open>P\<close>'s new total handle
  and \<open>P\<close> in the grant relation. A successful \<open>calculateMyRank\<close> by \<open>P\<close> makes two grants on
  the handle it returns, to the ledger and then to \<open>P\<close>; they are its last two calls to the
  backend, so both are in place when the call returns.
\<close>

theorem caller_is_granted_total_and_rank:
  "(mine st P now e p = Inr st' \<longrightarrow>
      getPlayerTotalMined st' P = Inr (totalMined (players st' P)) \<and>
      (totalMined (players st' P), Party P) \<in> acl (fhe st')) \<and>
   (calculateMyRank st P = Inr (r, st'') \<longrightarrow>
      (r, Ledger) \<in> acl (fhe st'') \<and> (r, Party P) \<in> acl (fhe st'') \<and>
      (\<exists>cs. calls (fhe st'') = calls (fhe st) @ cs @ [CallAllowThis r, CallAllow r P]))"
proof (intro conjI impI)
  assume m: "mine st P now e p = Inr st'"
  from mine_shape [OF m] show "(totalMined (players st' P), Party P) \<in> acl (fhe st')"
    by auto
  from mine_shape [OF m] have "exists (players st' P)"
    by blast
  then show "getPlayerTotalMined st' P = Inr (totalMined (players st' P))"
    by (simp add: getPlayerTotalMined_def)
next
  assume c: "calculateMyRank st P = Inr (r, st'')"
  note fr = calculateMyRank_frame [OF c]
  show "(r, Ledger) \<in> acl (fhe st'')" "(r, Party P) \<in> acl (fhe st'')"
    using fr(3) by simp_all
  show "\<exists>cs. calls (fhe st'') = calls (fhe st) @ cs @ [CallAllowThis r, CallAllow r P]"
    using fr(5) by blast
qed

theorem caller_is_granted_total_and_rank_witness:
  "(totalMined (players (run genesis [Mine alice 0 10 [1]]) alice), Party alice)
     \<in> acl (fhe (run genesis [Mine alice 0 10 [1]])) \<and>
   (20, Ledger) \<in> acl (fhe (run genesis (scenario @ [CalculateMyRank alice]))) \<and>
   (20, Party alice) \<in> acl (fhe (run genesis (scenario @ [CalculateMyRank alice])))"
proof -
  have m: "mine genesis alice 0 10 [1] = Inr (run genesis [Mine alice 0 10 [1]])"
    by (simp add: ledger_defs)
  have c: "calculateMyRank (run genesis scenario) alice =
             Inr (20, run genesis (scenario @ [CalculateMyRank alice]))"
    by (simp add: ledger_defs)
  from caller_is_granted_total_and_rank
         [of genesis alice 0 10 "[1]" "run genesis [Mine alice 0 10 [1]]"]
  have "(totalMined (players (run genesis [Mine alice 0 10 [1]]) alice), Party alice)
          \<in> acl (fhe (run genesis [Mine alice 0 10 [1]]))"
    using m by blast
  moreover
  from caller_is_granted_total_and_rank
         [where st = "run genesis scenario" and P = alice and r = 20
            and st'' = "run genesis (scenario @ [CalculateMyRank alice])"]
  have "(20, Ledger) \<in> acl (fhe (run genesis (scenario @ [CalculateMyRank alice]))) \<and>
        (20, Party alice) \<in> acl (fhe (run genesis (scenario @ [CalculateMyRank alice])))"
    using c by blast
  ultimately show ?thesis by blast
qed

text \<open>
  C7. As stated, every handle would be self-granted before its first use as an operand. The
  log of a ranking shows otherwise. After Alice and Bob have mined, Alice's
  \<open>calculateMyRank\<close> makes the ten calls below: handle 10 is \<open>count\<close>, 11 is \<open>isGreater\<close>,
  14 is \<open>increment\<close>. Each of them is an operand of a later call, and the only
  \<^verbatim>\<open>allowThis\<close> is the one on the returned handle 17.
\<close>

theorem loop_handles_used_without_self_grant:
  "drop 17 (calls (fhe (run genesis ranking_run))) =
     [CallAsEuint32 0 10, CallGt 8 4 11, CallAsEuint32 1 12, CallAsEuint32 0 13,
      CallSelect 11 12 13 14, CallAdd 10 14 15, CallAsEuint32 1 16, CallAdd 15 16 17,
      CallAllowThis 17, CallAllow 17 alice] \<and>
   \<not> self_granted_before_use 10 (calls (fhe (run genesis ranking_run))) \<and>
   \<not> self_granted_before_use 11 (calls (fhe (run genesis ranking_run))) \<and>
   \<not> self_granted_before_use 14 (calls (fhe (run genesis ranking_run)))"
  by (simp add: ledger_defs ranking_run_def)

text \<open>
  C7, amended. The statement is about \<open>mine\<close> and \<open>calculateMyRank\<close> only; it says nothing
  of the handle the constructor stores. In any state, a successful \<open>mine\<close> calls
  \<^verbatim>\<open>allowThis\<close> on the verified input directly after \<^verbatim>\<open>fromExternal\<close> has produced it, hence
  before any use, and when it returns both the caller's new total and the new global total are
  self-granted. A successful \<open>calculateMyRank\<close> self-grants the handle it returns before it
  returns, and that is the only \<^verbatim>\<open>allowThis\<close> it makes.
\<close>

theorem stored_and_returned_handles_self_granted:
  "(mine st s now e p = Inr st' \<longrightarrow>
      (\<exists>cs. calls (fhe st') = calls (fhe st) @
               CallFromExternal (fresh (fhe st)) # CallAllowThis (fresh (fhe st)) # cs) \<and>
      self_granted_before_use (fresh (fhe st)) (drop (length (calls (fhe st))) (calls (fhe st'))) \<and>
      (totalMined (players st' s), Ledger) \<in> acl (fhe st') \<and>
      (totalMinedAmount st', Ledger) \<in> acl (fhe st')) \<and>
   (calculateMyRank st s = Inr (r, st'') \<longrightarrow>
      (r, Ledger) \<in> acl (fhe st'') \<and>
      (\<exists>cs. calls (fhe st'') = calls (fhe st) @ cs @ [CallAllowThis r, CallAllow r s] \<and>
            filter is_allowThis cs = []))"
proof (intro conjI impI)
  assume m: "mine st s now e p = Inr st'"
  from mine_shape [OF m] obtain f2 c1 c2 t cs where
    calls2: "calls f2 = calls (fhe st) @ CallFromExternal (fresh (fhe st)) #
                    CallAllowThis (fresh (fhe st)) # cs"
    and tm: "totalMined (players st' s) = fresh f2"
    and gm: "totalMinedAmount st' = Suc (fresh f2)"
    and f': "fhe st' = FHE_allow (fresh f2) s (FHE_allowThis (fresh f2) (FHE_allowThis (Suc (fresh f2))
                       (issue c2 (CallAdd (totalMinedAmount st) (fresh (fhe st)) (Suc (fresh f2)))
                          (issue c1 (CallAdd t (fresh (fhe st)) (fresh f2)) f2))))"
    by blast
  have calls': "calls (fhe st') = calls (fhe st) @ CallFromExternal (fresh (fhe st)) #
       CallAllowThis (fresh (fhe st)) # (cs @ [CallAdd t (fresh (fhe st)) (fresh f2),
         CallAdd (totalMinedAmount st) (fresh (fhe st)) (Suc (fresh f2)),
         CallAllowThis (Suc (fresh f2)), CallAllowThis (fresh f2), CallAllow (fresh f2) s])"
    by (simp add: f' calls2)
  then show "\<exists>cs. calls (fhe st') = calls (fhe st) @
               CallFromExternal (fresh (fhe st)) # CallAllowThis (fresh (fhe st)) # cs"
    by blast
  show "self_granted_before_use (fresh (fhe st)) (drop (length (calls (fhe st))) (calls (fhe st')))"
    unfolding calls' by simp
  show "(totalMined (players st' s), Ledger) \<in> acl (fhe st')"
    by (simp add: tm f')
  show "(totalMinedAmount st', Ledger) \<in> acl (fhe st')"
    by (simp add: gm f')
next
  assume c: "calculateMyRank st s = Inr (r, st'')"
  note fr = calculateMyRank_frame [OF c]
  show "(r, Ledger) \<in> acl (fhe st'')"
    using fr(3) by simp
  show "\<exists>cs. calls (fhe st'') = calls (fhe st) @ cs @ [CallAllowThis r, CallAllow r s] \<and>
            filter is_allowThis cs = []"
    by (rule fr(5))
qed

theorem stored_and_returned_handles_self_granted_witness:
  "self_granted_before_use 2 (drop 1 (calls (fhe (run genesis [Mine alice 0 10 [1]])))) \<and>
   totalMined (players (run genesis [Mine alice 0 10 [1]]) alice) = 4 \<and>
   (4, Ledger) \<in> acl (fhe (run genesis [Mine alice 0 10 [1]])) \<and>
   totalMinedAmount (run genesis [Mine alice 0 10 [1]]) = 5 \<and>
   (5, Ledger) \<in> acl (fhe (run genesis [Mine alice 0 10 [1]])) \<and>
   (20, Ledger) \<in> acl (fhe (run genesis (scenario @ [CalculateMyRank alice])))"
proof -
  have m: "mine genesis alice 0 10 [1] = Inr (run genesis [Mine alice 0 10 [1]])"
    by (simp add: ledger_defs)
  have c: "calculateMyRank (run genesis scenario) alice =
             Inr (20, run genesis (scenario @ [CalculateMyRank alice]))"
    by (simp add: ledger_defs)
  have v: "fresh (fhe genesis) = 2" "length (calls (fhe genesis)) = 1"
    "totalMined (players (run genesis [Mine alice 0 10 [1]]) alice) = 4"
    "totalMinedAmount (run genesis [Mine alice 0 10 [1]]) = 5"
    by (simp_all add: ledger_defs)
  from stored_and_returned_handles_self_granted
         [of genesis alice 0 10 "[1]" "run genesis [Mine alice 0 10 [1]]"] m v
  have "self_granted_before_use 2 (drop 1 (calls (fhe (run genesis [Mine alice 0 10 [1]])))) \<and>
        (4, Ledger) \<in> acl (fhe (run genesis [Mine alice 0 10 [1]])) \<and>
        (5, Ledger) \<in> acl (fhe (run genesis [Mine alice 0 10 [1]]))"
    by simp
  moreover
  from stored_and_returned_handles_self_granted
         [where st = "run genesis scenario" and s = alice and r = 20
            and st'' = "run genesis (scenario @ [CalculateMyRank alice])"] c
  have "(20, Ledger) \<in> acl (fhe (run genesis (scenario @ [CalculateMyRank alice])))"
    by blast
  ultimately show ?thesis
    using v by simp
qed

subsection \<open>The minimum interval\<close>

lemma check_interval_TooSoon:
  "check_interval st s now = Some TooSoonToMineAgain \<longleftrightarrow>
     exists (players st s) \<and>
     unat (lastMineTime (players st s)) + unat (minMineInterval st) < 2 ^ 256 \<and>
     unat now < unat (lastMineTime (players st s)) + unat (minMineInterval st)"
proof (cases "unat (lastMineTime (players st s)) + unat (minMineInterval st) < 2 ^ 256")
  case True
  then have "unat (lastMineTime (players st s) + minMineInterval st) =
             unat (lastMineTime (players st s)) + unat (minMineInterval st)"
    using unat_add_lem [of "lastMineTime (players st s)" "minMineInterval st"] by simp
  with True show ?thesis
    by (auto simp: check_interval_def checked_add_def word_le_nat_alt)
next
  case False
  then show ?thesis
    by (simp add: check_interval_def checked_add_def)
qed

lemma mine_TooSoon:
  "mine st s now e p = Inl TooSoonToMineAgain \<longleftrightarrow>
     inputVerifier (fhe st) s e p \<noteq> None \<and> check_interval st s now = Some TooSoonToMineAgain"
  by (auto simp: mine_cases split: option.splits dest: add_to_totals_InlD)

text \<open>
  C3. As stated, \<open>mine\<close> would fail with the rate-limit error whenever a record exists and
  \<open>now\<close> is before \<open>lastMineTime + minMineInterval\<close>. Two calls within the interval do not:
  with a proof the verifier rejects, \<open>mine\<close> fails in \<^verbatim>\<open>fromExternal\<close>, before the interval
  is looked at; and under a deployment whose interval is the largest \<^verbatim>\<open>uint256\<close>, the checked
  addition \<open>lastMineTime + minMineInterval\<close> panics.
\<close>

theorem rate_limited_call_fails_otherwise:
  "exists (players (run genesis [Mine alice 0 10 [1]]) alice) \<and>
   unat (5 :: uint256) < unat (lastMineTime (players (run genesis [Mine alice 0 10 [1]]) alice)) +
                         unat (minMineInterval (run genesis [Mine alice 0 10 [1]])) \<and>
   mine (run genesis [Mine alice 0 10 [1]]) alice 5 5 [] = Inl InvalidInputProof \<and>
   exists (players (run (constructor empty_backend 0 (- 1)) [Mine alice 1 10 [1]]) alice) \<and>
   unat (5 :: uint256) <
     unat (lastMineTime (players (run (constructor empty_backend 0 (- 1)) [Mine alice 1 10 [1]]) alice)) +
     unat (minMineInterval (run (constructor empty_backend 0 (- 1)) [Mine alice 1 10 [1]])) \<and>
   mine (run (constructor empty_backend 0 (- 1)) [Mine alice 1 10 [1]]) alice 5 5 [1] =
     Inl ArithmeticOverflow"
  by (simp add: ledger_defs unsigned_minus_1_eq_mask mask_eq_exp_minus_1)

text \<open>
  C3, amended. In any state, \<open>mine\<close> fails with the rate-limit error exactly when the input
  proof verifies, a record exists for the caller, \<open>lastMineTime + minMineInterval\<close> fits in
  \<^verbatim>\<open>uint256\<close>, and \<open>now\<close> is before that sum. A caller without a record never fails the
  rate limit, and never the addition either, whatever \<open>now\<close> and \<open>minMineInterval\<close> are; in
  a state reached from the constructor its first \<open>mine\<close> succeeds as soon as the proof
  verifies.
\<close>

theorem rate_limit_iff:
  "(mine st s now e p = Inl TooSoonToMineAgain \<longleftrightarrow>
      inputVerifier (fhe st) s e p \<noteq> None \<and> exists (players st s) \<and>
      unat (lastMineTime (players st s)) + unat (minMineInterval st) < 2 ^ 256 \<and>
      unat now < unat (lastMineTime (players st s)) + unat (minMineInterval st)) \<and>
   (\<not> exists (players st s) \<longrightarrow>
      mine st s now e p \<noteq> Inl TooSoonToMineAgain \<and> mine st s now e p \<noteq> Inl ArithmeticOverflow) \<and>
   (st = run (constructor f rt mi) ts \<and> \<not> exists (players st s) \<and>
    inputVerifier (fhe st) s e p \<noteq> None \<longrightarrow>
      (\<exists>st'. mine st s now e p = Inr st' \<and> exists (players st' s) \<and>
             lastMineTime (players st' s) = now))"
proof -
  have no_panic: "mine st s now e p \<noteq> Inl ArithmeticOverflow" if "\<not> exists (players st s)"
    using that
    by (auto simp: mine_cases check_interval_def split: option.splits dest: add_to_totals_InlD)
  have first: "\<exists>st'. mine st s now e p = Inr st' \<and> exists (players st' s) \<and>
             lastMineTime (players st' s) = now"
    if r: "st = run (constructor f rt mi) ts" and new: "\<not> exists (players st s)"
      and iv: "inputVerifier (fhe st) s e p \<noteq> None"
  proof -
    have inv: "ledger_inv st"
      unfolding r by (rule run_inv [OF ledger_inv_constructor])
    from iv obtain v where v: "inputVerifier (fhe st) s e p = Some v"
      by blast
    have chk: "check_interval st s now = None"
      using new by (simp add: check_interval_def)
    have G: "decrypt (fhe st) (totalMinedAmount st) =
               Some (sum_list (map (total_of st) (playerAddresses st)))"
      using inv by (simp add: ledger_inv_def)
    have T: "if exists (players st s) then clearTotal st s = Some 0 else (0 :: 32 word) = 0"
      using new by simp
    from mine_succeeds [OF v chk G T] show ?thesis
      by blast
  qed
  from no_panic first show ?thesis
    by (auto simp: mine_TooSoon check_interval_TooSoon)
qed

theorem rate_limit_iff_witness:
  "mine (run genesis [Mine alice 0 10 [1]]) alice 5 5 [1] = Inl TooSoonToMineAgain \<and>
   mine (run genesis [Mine alice 0 10 [1]]) alice 10 5 [1] \<noteq> Inl TooSoonToMineAgain \<and>
   mine genesis alice 0 10 [1] \<noteq> Inl TooSoonToMineAgain"
proof -
  have v: "inputVerifier (fhe (run genesis [Mine alice 0 10 [1]])) alice 5 [1] \<noteq> None"
    "exists (players (run genesis [Mine alice 0 10 [1]]) alice)"
    "lastMineTime (players (run genesis [Mine alice 0 10 [1]]) alice) = 0"
    "minMineInterval (run genesis [Mine alice 0 10 [1]]) = 10"
    "\<not> exists (players genesis alice)"
    by (simp_all add: ledger_defs)
  from rate_limit_iff [of "run genesis [Mine alice 0 10 [1]]" alice 5 5 "[1]", THEN conjunct1]
       rate_limit_iff [of "run genesis [Mine alice 0 10 [1]]" alice 10 5 "[1]", THEN conjunct1]
       rate_limit_iff [of genesis alice 0 10 "[1]", THEN conjunct2, THEN conjunct1] v
  show ?thesis
    by simp
qed

text \<open>
  C4. When \<open>mine\<close> fails with the rate-limit error the transaction reverts: the state after
  it is the state before it, with every record, the registry, the global total and the grant
  relation, and \<open>getPlayerTotalMined\<close> answers as it did before the call. In particular, after
  a successful \<open>mine\<close> at time \<open>now\<close>, a second call by the same principal with a proof that
  verifies, at a time before \<open>now + minMineInterval\<close>, is rejected with that error and leaves
  the total of the first call in place.
\<close>

theorem rate_limited_call_changes_nothing:
  "(mine st s now e p = Inl TooSoonToMineAgain \<longrightarrow>
      step st (Mine s now e p) = st \<and>
      players (step st (Mine s now e p)) = players st \<and>
      playerAddresses (step st (Mine s now e p)) = playerAddresses st \<and>
      totalMinedAmount (step st (Mine s now e p)) = totalMinedAmount st \<and>
      acl (fhe (step st (Mine s now e p))) = acl (fhe st) \<and>
      getPlayerTotalMined (step st (Mine s now e p)) q = getPlayerTotalMined st q \<and>
      clearTotal (step st (Mine s now e p)) q = clearTotal st q) \<and>
   (mine st s now e p = Inr st1 \<and> inputVerifier (fhe st1) s e2 p2 \<noteq> None \<and>
    unat now + unat (minMineInterval st) < 2 ^ 256 \<and>
    unat now2 < unat now + unat (minMineInterval st) \<longrightarrow>
      mine st1 s now2 e2 p2 = Inl TooSoonToMineAgain \<and>
      step st1 (Mine s now2 e2 p2) = st1 \<and>
      getPlayerTotalMined (step st1 (Mine s now2 e2 p2)) s = Inr (totalMined (players st1 s)))"
proof (intro conjI impI)
  assume "mine st s now e p = Inl TooSoonToMineAgain"
  then have "step st (Mine s now e p) = st"
    by (simp add: step_def)
  then show "step st (Mine s now e p) = st"
    "players (step st (Mine s now e p)) = players st"
    "playerAddresses (step st (Mine s now e p)) = playerAddresses st"
    "totalMinedAmount (step st (Mine s now e p)) = totalMinedAmount st"
    "acl (fhe (step st (Mine s now e p))) = acl (fhe st)"
    "getPlayerTotalMined (step st (Mine s now e p)) q = getPlayerTotalMined st q"
    "clearTotal (step st (Mine s now e p)) q = clearTotal st q"
    by simp_all
next
  assume a: "mine st s now e p = Inr st1 \<and> inputVerifier (fhe st1) s e2 p2 \<noteq> None \<and>
    unat now + unat (minMineInterval st) < 2 ^ 256 \<and>
    unat now2 < unat now + unat (minMineInterval st)"
  then have m: "mine st s now e p = Inr st1"
    by blast
  from mine_shape [OF m] have first: "exists (players st1 s)" "lastMineTime (players st1 s) = now"
    "minMineInterval st1 = minMineInterval st"
    by blast+
  with a show second: "mine st1 s now2 e2 p2 = Inl TooSoonToMineAgain"
    by (simp add: mine_TooSoon check_interval_TooSoon)
  then show same: "step st1 (Mine s now2 e2 p2) = st1"
    by (simp add: step_def)
  show "getPlayerTotalMined (step st1 (Mine s now2 e2 p2)) s = Inr (totalMined (players st1 s))"
    unfolding same using first(1) by (simp add: getPlayerTotalMined_def)
qed

theorem rate_limited_call_changes_nothing_witness:
  "mine (run genesis [Mine alice 0 10 [1]]) alice 5 5 [1] = Inl TooSoonToMineAgain \<and>
   run genesis [Mine alice 0 10 [1], Mine alice 5 5 [1]] = run genesis [Mine alice 0 10 [1]] \<and>
   clearTotal (run genesis [Mine alice 0 10 [1], Mine alice 5 5 [1]]) alice = Some 10"
proof -
  have m: "mine genesis alice 0 10 [1] = Inr (run genesis [Mine alice 0 10 [1]])"
    by (simp add: ledger_defs)
  have v: "inputVerifier (fhe (run genesis [Mine alice 0 10 [1]])) alice 5 [1] \<noteq> None"
    "minMineInterval genesis = 10"
    by (simp_all add: ledger_defs)
  have t: "clearTotal (run genesis [Mine alice 0 10 [1]]) alice = Some 10"
    by (simp add: ledger_defs)
  have r: "run genesis [Mine alice 0 10 [1], Mine alice 5 5 [1]] =
           step (run genesis [Mine alice 0 10 [1]]) (Mine alice 5 5 [1])"
    by (simp add: run_def)
  from rate_limited_call_changes_nothing
         [where st = genesis and s = alice and now = 0 and e = 10 and p = "[1]"
            and ?st1.0 = "run genesis [Mine alice 0 10 [1]]" and ?e2.0 = 5 and ?p2.0 = "[1]"
            and ?now2.0 = 5, THEN conjunct2] m v
  have second: "mine (run genesis [Mine alice 0 10 [1]]) alice 5 5 [1] = Inl TooSoonToMineAgain"
    by simp
  from rate_limited_call_changes_nothing
         [where st = "run genesis [Mine alice 0 10 [1]]" and s = alice and now = 5 and e = 5
            and p = "[1]" and q = alice, THEN conjunct1] second t
  show ?thesis
    unfolding r by simp
qed

subsection \<open>Wrap-around\<close>

text \<open>
  C8. The addition of the backend, as the specification gives it: when both operands have
  cleartexts \<open>x\<close> and \<open>y\<close>, \<open>FHE_add\<close> succeeds and its result stands for \<open>(x + y) mod 2 ^ 32\<close>.
  \<open>mine\<close> uses it twice. In a state reached from the constructor, a call whose proof verifies
  and which passes the interval check succeeds whatever the amount is, and the caller's total
  and the global total each grow by the amount modulo \<open>2 ^ 32\<close>: on overflow they wrap.
\<close>

theorem add_wraps_modulo_2_32:
  "(decrypt f a = Some x \<and> decrypt f b = Some y \<longrightarrow>
      (\<exists>h f'. FHE_add a b f = Inr (h, f') \<and> decrypt f' h = Some (x + y) \<and>
               unat (x + y) = (unat x + unat y) mod 2 ^ 32)) \<and>
   (st = run (constructor f0 rt mi) ts \<and> inputVerifier (fhe st) s e p = Some v \<and>
    check_interval st s now = None \<longrightarrow>
      (\<exists>st' G. mine st s now e p = Inr st' \<and>
         clearTotal st' s = Some (total_of st' s) \<and>
         unat (total_of st' s) =
           (unat (if exists (players st s) then total_of st s else 0) + unat v) mod 2 ^ 32 \<and>
         decrypt (fhe st) (totalMinedAmount st) = Some G \<and>
         map_option unat (decrypt (fhe st') (totalMinedAmount st')) =
           Some ((unat G + unat v) mod 2 ^ 32)))"
proof (intro conjI impI)
  assume "decrypt f a = Some x \<and> decrypt f b = Some y"
  then have "FHE_add a b f = Inr (fresh f, issue (U32 (x + y)) (CallAdd a b (fresh f)) f)"
    by (simp add: FHE_add_Inr)
  moreover have "unat (x + y) = (unat x + unat y) mod 2 ^ 32"
    by (simp add: unat_word_ariths)
  ultimately show "\<exists>h f'. FHE_add a b f = Inr (h, f') \<and> decrypt f' h = Some (x + y) \<and>
               unat (x + y) = (unat x + unat y) mod 2 ^ 32"
    by simp
next
  assume a: "st = run (constructor f0 rt mi) ts \<and> inputVerifier (fhe st) s e p = Some v \<and>
    check_interval st s now = None"
  then have inv: "ledger_inv st"
    using run_inv [OF ledger_inv_constructor] by simp
  define t where "t = (if exists (players st s) then total_of st s else 0)"
  define G where "G = sum_list (map (total_of st) (playerAddresses st))"
  have T: "if exists (players st s) then clearTotal st s = Some t else t = 0"
    using inv by (simp add: t_def ledger_inv_def)
  have G: "decrypt (fhe st) (totalMinedAmount st) = Some G"
    using inv by (simp add: ledger_inv_def G_def)
  from a have iv: "inputVerifier (fhe st) s e p = Some v" and chk: "check_interval st s now = None"
    by blast+
  from mine_succeeds [OF iv chk G T] obtain st' where
    m: "mine st s now e p = Inr st'"
    and ts: "clearTotal st' s = Some (t + v)"
    and G': "decrypt (fhe st') (totalMinedAmount st') = Some (G + v)"
    by blast
  have "total_of st' s = t + v"
    using ts by (simp add: total_of_def)
  with m ts G G' show "\<exists>st' G. mine st s now e p = Inr st' \<and>
         clearTotal st' s = Some (total_of st' s) \<and>
         unat (total_of st' s) =
           (unat (if exists (players st s) then total_of st s else 0) + unat v) mod 2 ^ 32 \<and>
         decrypt (fhe st) (totalMinedAmount st) = Some G \<and>
         map_option unat (decrypt (fhe st') (totalMinedAmount st')) =
           Some ((unat G + unat v) mod 2 ^ 32)"
    by (simp add: unat_word_ariths t_def)
qed

theorem add_wraps_modulo_2_32_witness:
  "(\<exists>h f'. FHE_add 1 2 (empty_backend\<lparr>ciphertexts := [U32 4294967295, U32 7]\<rparr>) = Inr (h, f') \<and>
            decrypt f' h = Some 6) \<and>
   clearTotal (run genesis [Mine alice 0 4294967295 [1]]) alice = Some 4294967295 \<and>
   (\<exists>st'. mine (run genesis [Mine alice 0 4294967295 [1]]) alice 10 7 [1] = Inr st' \<and>
           clearTotal st' alice = Some 6 \<and> decrypt (fhe st') (totalMinedAmount st') = Some 6)"
proof -
  have d: "decrypt (empty_backend\<lparr>ciphertexts := [U32 4294967295, U32 7]\<rparr>) 1 = Some 4294967295"
    "decrypt (empty_backend\<lparr>ciphertexts := [U32 4294967295, U32 7]\<rparr>) 2 = Some 7"
    by (simp_all add: ledger_defs)
  have v: "inputVerifier (fhe (run genesis [Mine alice 0 4294967295 [1]])) alice 7 [1] = Some 7"
    "check_interval (run genesis [Mine alice 0 4294967295 [1]]) alice 10 = None"
    "exists (players (run genesis [Mine alice 0 4294967295 [1]]) alice)"
    "total_of (run genesis [Mine alice 0 4294967295 [1]]) alice = 4294967295"
    "clearTotal (run genesis [Mine alice 0 4294967295 [1]]) alice = Some 4294967295"
    "decrypt (fhe (run genesis [Mine alice 0 4294967295 [1]]))
       (totalMinedAmount (run genesis [Mine alice 0 4294967295 [1]])) = Some 4294967295"
    by (simp_all add: ledger_defs)
  have w: "(4294967302 :: 32 word) = 6"
    by simp
  have unat6: "z = 6" if "unat z = 6" for z :: "32 word"
  proof -
    have "z = word_of_nat (unat z)" by simp
    also have "\<dots> = 6" unfolding that by simp
    finally show ?thesis .
  qed
  from add_wraps_modulo_2_32
         [where f = "empty_backend\<lparr>ciphertexts := [U32 4294967295, U32 7]\<rparr>" and a = 1 and b = 2
            and x = 4294967295 and y = 7] d w
  have one: "\<exists>h f'. FHE_add 1 2 (empty_backend\<lparr>ciphertexts := [U32 4294967295, U32 7]\<rparr>) = Inr (h, f') \<and>
            decrypt f' h = Some 6"
    by simp
  have r: "run genesis [Mine alice 0 4294967295 [1]] =
           run (constructor empty_backend 0 10) [Mine alice 0 4294967295 [1]]"
    by (simp only: genesis_def)
  from add_wraps_modulo_2_32
         [where st = "run genesis [Mine alice 0 4294967295 [1]]" and ?f0.0 = empty_backend and rt = 0
            and mi = 10 and ts = "[Mine alice 0 4294967295 [1]]" and s = alice and e = 7 and p = "[1]"
            and v = 7 and now = 10, THEN conjunct2] r v(1,2)
  obtain st' G where m: "mine (run genesis [Mine alice 0 4294967295 [1]]) alice 10 7 [1] = Inr st'"
    and t: "clearTotal st' alice = Some (total_of st' alice)"
    and u': "unat (total_of st' alice) =
           (unat (if exists (players (run genesis [Mine alice 0 4294967295 [1]]) alice)
                  then total_of (run genesis [Mine alice 0 4294967295 [1]]) alice else 0) + unat (7 :: 32 word))
           mod 2 ^ 32"
    and G: "decrypt (fhe (run genesis [Mine alice 0 4294967295 [1]]))
              (totalMinedAmount (run genesis [Mine alice 0 4294967295 [1]])) = Some G"
    and g': "map_option unat (decrypt (fhe st') (totalMinedAmount st')) =
           Some ((unat G + unat (7 :: 32 word)) mod 2 ^ 32)"
    by blast
  have u: "unat (total_of st' alice) = 6"
    unfolding u' v(4) using v(3) by simp
  have "G = 4294967295"
    using G unfolding v(6) by simp
  then have g: "map_option unat (decrypt (fhe st') (totalMinedAmount st')) = Some 6"
    unfolding g' by simp
  from u have "total_of st' alice = 6"
    by (rule unat6)
  moreover from g have "decrypt (fhe st') (totalMinedAmount st') = Some 6"
    by (cases "decrypt (fhe st') (totalMinedAmount st')") (auto dest: unat6)
  ultimately show ?thesis
    using one v(5) m t by auto
qed

end
